theory Spec2Isabelle
  imports Complex_Main "HOL-Library.Multiset"
begin

section \<open>Budget tracker (src/budget/tracker.ts)\<close>

text \<open>
  Costs are JavaScript numbers in the source; they are modelled as exact rationals.
  Timestamps are milliseconds since the epoch. The UTC date string \<open>YYYY-MM-DD\<close>
  that \<open>getCurrentDateUTC\<close> cuts out of \<open>toISOString()\<close> is modelled by the day
  number, which is equal for two instants exactly when the strings are equal.
  \<open>lastHourlyReset\<close> is an ISO string with millisecond precision, so reading it back
  with \<open>new Date(...)\<close> gives the stored instant.
\<close>

record BudgetState =
  dailySpendUsd :: rat
  hourlyCallCount :: nat
  lastResetDate :: int
  lastHourlyReset :: int

text \<open>The part of \<open>McpServerConfig\<close> (config.ts) that the budget and the engine read.\<close>

record McpServerConfig =
  maxDailyCostUsd :: rat
  maxSingleCallCostUsd :: rat
  maxCallsPerHour :: nat
  providers :: "string \<rightharpoonup> string"

text \<open>
  One call of \<open>maybeResetCounters\<close> reads the clock up to three times with
  \<open>new Date()\<close>: in \<open>getCurrentDateUTC\<close>, in \<open>shouldResetHourly\<close>, and when it
  stamps \<open>lastHourlyReset\<close>. The three readings are the input of the model.
\<close>

record Clock =
  dateNow :: int
  hourNow :: int
  stampNow :: int

definition msPerDay :: int where
  "msPerDay = 24 * 60 * 60 * 1000"

definition hourInMs :: int where
  "hourInMs = 60 * 60 * 1000"

definition getCurrentDateUTC :: "int \<Rightarrow> int" where
  "getCurrentDateUTC now = now div msPerDay"

definition shouldResetHourly :: "int \<Rightarrow> BudgetState \<Rightarrow> bool" where
  "shouldResetHourly now st \<longleftrightarrow> now - lastHourlyReset st \<ge> hourInMs"

definition maybeResetCounters :: "Clock \<Rightarrow> BudgetState \<Rightarrow> BudgetState" where
  "maybeResetCounters clk st =
     (let currentDate = getCurrentDateUTC (dateNow clk);
          st1 = (if lastResetDate st \<noteq> currentDate
                 then st\<lparr>dailySpendUsd := 0, lastResetDate := currentDate\<rparr>
                 else st);
          st2 = (if shouldResetHourly (hourNow clk) st1
                 then st1\<lparr>hourlyCallCount := 0, lastHourlyReset := stampNow clk\<rparr>
                 else st1)
      in st2)"

text \<open>
  The three denial messages of \<open>checkBudget\<close>, with the numbers each message prints.
\<close>

datatype BudgetDenial =
    HourlyCallLimitReached nat
  | DailyBudgetExceeded rat rat
  | SingleCallLimitExceeded rat rat

record BudgetCheckResult =
  allowed :: bool
  error :: "BudgetDenial option"
  currentDailySpend :: rat
  currentHourlyCalls :: nat

definition checkBudget ::
  "Clock \<Rightarrow> McpServerConfig \<Rightarrow> rat \<Rightarrow> BudgetState \<Rightarrow> BudgetCheckResult \<times> BudgetState" where
  "checkBudget clk config estimatedCost st0 =
     (let st = maybeResetCounters clk st0 in
      if hourlyCallCount st \<ge> maxCallsPerHour config then
        (\<lparr>allowed = False,
          error = Some (HourlyCallLimitReached (maxCallsPerHour config)),
          currentDailySpend = dailySpendUsd st,
          currentHourlyCalls = hourlyCallCount st\<rparr>, st)
      else if dailySpendUsd st + estimatedCost > maxDailyCostUsd config then
        (\<lparr>allowed = False,
          error = Some (DailyBudgetExceeded (dailySpendUsd st) (maxDailyCostUsd config)),
          currentDailySpend = dailySpendUsd st,
          currentHourlyCalls = hourlyCallCount st\<rparr>, st)
      else if estimatedCost > maxSingleCallCostUsd config then
        (\<lparr>allowed = False,
          error = Some (SingleCallLimitExceeded estimatedCost (maxSingleCallCostUsd config)),
          currentDailySpend = dailySpendUsd st,
          currentHourlyCalls = hourlyCallCount st\<rparr>, st)
      else
        (\<lparr>allowed = True,
          error = None,
          currentDailySpend = dailySpendUsd st,
          currentHourlyCalls = hourlyCallCount st\<rparr>, st))"

definition recordCost :: "Clock \<Rightarrow> rat \<Rightarrow> BudgetState \<Rightarrow> BudgetState" where
  "recordCost clk actualCost st0 =
     (let st = maybeResetCounters clk st0 in
      st\<lparr>dailySpendUsd := dailySpendUsd st + actualCost,
         hourlyCallCount := hourlyCallCount st + 1\<rparr>)"

text \<open>A sequence of \<open>recordCost\<close> calls, each with its own clock readings.\<close>

fun recordCosts :: "(Clock \<times> rat) list \<Rightarrow> BudgetState \<Rightarrow> BudgetState" where
  "recordCosts [] st = st"
| "recordCosts ((clk, c) # cs) st = recordCosts cs (recordCost clk c st)"

text \<open>
  A mixed sequence of budget calls, as the tools issue them: each call is a
  \<open>checkBudget\<close> or a \<open>recordCost\<close>, and each starts with \<open>maybeResetCounters\<close>.
\<close>

datatype BudgetCall = Check rat | Record rat

fun budgetCall :: "McpServerConfig \<Rightarrow> Clock \<Rightarrow> BudgetCall \<Rightarrow> BudgetState \<Rightarrow> BudgetState" where
  "budgetCall config clk (Check estimatedCost) st = snd (checkBudget clk config estimatedCost st)"
| "budgetCall config clk (Record actualCost) st = recordCost clk actualCost st"

text \<open>
  The two branch conditions of \<open>maybeResetCounters\<close>: whether this call zeroes the daily
  spend, and whether it zeroes the hourly call count. The daily branch leaves
  \<open>lastHourlyReset\<close> alone, so the hourly test can be read on the incoming state.
\<close>

definition dailyResetDue :: "Clock \<Rightarrow> BudgetState \<Rightarrow> bool" where
  "dailyResetDue clk st \<longleftrightarrow> lastResetDate st \<noteq> getCurrentDateUTC (dateNow clk)"

definition hourlyResetDue :: "Clock \<Rightarrow> BudgetState \<Rightarrow> bool" where
  "hourlyResetDue clk st \<longleftrightarrow> shouldResetHourly (hourNow clk) st"

text \<open>How many calls of a sequence reset the daily spend, and how many the hourly count.\<close>

fun dailyResets :: "McpServerConfig \<Rightarrow> (Clock \<times> BudgetCall) list \<Rightarrow> BudgetState \<Rightarrow> nat" where
  "dailyResets config [] st = 0"
| "dailyResets config ((clk, c) # cs) st =
     (if dailyResetDue clk st then 1 else 0) + dailyResets config cs (budgetCall config clk c st)"

fun hourlyResets :: "McpServerConfig \<Rightarrow> (Clock \<times> BudgetCall) list \<Rightarrow> BudgetState \<Rightarrow> nat" where
  "hourlyResets config [] st = 0"
| "hourlyResets config ((clk, c) # cs) st =
     (if hourlyResetDue clk st then 1 else 0) + hourlyResets config cs (budgetCall config clk c st)"

section \<open>Run store (tools/run-store.ts) and the list tool (tools/relay-runs-list.ts)\<close>

datatype RunType = Single | Workflow

record RunRecord =
  runId :: string
  runType :: RunType
  runModel :: "string option"
  workflowName :: "string option"
  runSuccess :: bool
  startTime :: int
  durationMs :: int
  totalTokens :: nat
  estimatedProviderCostUsd :: rat
  contextReduction :: "string option"

definition MAX_RUNS :: nat where
  "MAX_RUNS = 100"

text \<open>\<open>runs.unshift(run)\<close>, then the trim to \<open>MAX_RUNS\<close>.\<close>

definition addRun :: "RunRecord \<Rightarrow> RunRecord list \<Rightarrow> RunRecord list" where
  "addRun run runs =
     (let runs1 = run # runs in
      if length runs1 > MAX_RUNS then take MAX_RUNS runs1 else runs1)"

text \<open>
  \<open>Array.prototype.slice(0, end)\<close> for an integer \<open>end\<close>: a negative \<open>end\<close> counts
  from the end of the array.
\<close>

definition slice0 :: "'a list \<Rightarrow> int \<Rightarrow> 'a list" where
  "slice0 xs e =
     (let len = int (length xs);
          k = (if e < 0 then max (len + e) 0 else min e len)
      in take (nat k) xs)"

definition getRecentRuns :: "int \<Rightarrow> RunRecord list \<Rightarrow> RunRecord list" where
  "getRecentRuns limit runs = slice0 runs (min limit 50)"

record RunSummary =
  sumRunId :: string
  sumType :: RunType
  sumName :: "string option"
  sumModel :: "string option"
  sumSuccess :: bool
  sumStartTime :: int
  sumDurationMs :: int
  sumTotalTokens :: nat
  sumEstimatedCostUsd :: rat
  sumTraceUrl :: string
  sumContextReduction :: "string option"

record RelayRunsListResponse =
  listedRuns :: "RunSummary list"
  total :: nat

text \<open>
  \<open>relayRunsListSchema\<close>: an optional number between 1 and 50. The server parses the
  arguments with it before it calls the tool, and a failed parse is answered with an error.
\<close>

definition relayRunsListSchema :: "int option \<Rightarrow> bool" where
  "relayRunsListSchema limit \<longleftrightarrow> (case limit of None \<Rightarrow> True | Some l \<Rightarrow> 1 \<le> l \<and> l \<le> 50)"

definition summarise :: "string \<Rightarrow> RunRecord \<Rightarrow> RunSummary" where
  "summarise traceUrlBase run =
     \<lparr>sumRunId = runId run,
      sumType = runType run,
      sumName = (if runType run = Workflow then workflowName run else None),
      sumModel = (if runType run = Single then runModel run else None),
      sumSuccess = runSuccess run,
      sumStartTime = startTime run,
      sumDurationMs = durationMs run,
      sumTotalTokens = totalTokens run,
      sumEstimatedCostUsd = estimatedProviderCostUsd run,
      sumTraceUrl = traceUrlBase @ ''/'' @ runId run,
      sumContextReduction = contextReduction run\<rparr>"

text \<open>\<open>input.limit || 10\<close>: an absent limit and the falsy 0 both give 10.\<close>

definition relayRunsList :: "string \<Rightarrow> int option \<Rightarrow> RunRecord list \<Rightarrow> RelayRunsListResponse" where
  "relayRunsList traceUrlBase limitArg runs =
     (let limit = (case limitArg of None \<Rightarrow> 10 | Some l \<Rightarrow> if l = 0 then 10 else l);
          summaries = map (summarise traceUrlBase) (getRecentRuns limit runs)
      in \<lparr>listedRuns = summaries, total = length summaries\<rparr>)"

text \<open>The \<open>relay_runs_list\<close> case of the server's request handler: parse, then call.\<close>

definition relay_runs_list ::
  "string \<Rightarrow> int option \<Rightarrow> RunRecord list \<Rightarrow> RelayRunsListResponse option" where
  "relay_runs_list traceUrlBase limitArg runs =
     (if relayRunsListSchema limitArg then Some (relayRunsList traceUrlBase limitArg runs) else None)"

section \<open>Workflow steps and JSON values\<close>

text \<open>
  Values of the source's type \<open>any\<close> that come from JSON: the workflow input, step
  outputs, \<open>params\<close> and \<open>schema\<close>. Numbers are restricted to integers. An object is
  the list of its own properties in insertion order, with distinct keys.
\<close>

datatype json =
    JNull
  | JBool bool
  | JNum int
  | JStr string
  | JArr "json list"
  | JObj "(string \<times> json) list"

text \<open>\<open>WorkflowStep\<close>, the type inferred from \<open>workflowStepSchema\<close>.\<close>

record WorkflowStep =
  name :: string
  model :: "string option"
  prompt :: "string option"
  systemPrompt :: "string option"
  depends :: "string list option"
  mcp :: "string option"
  params :: "json option"
  schema :: "json option"

section \<open>Topological sort of the execution path (tools/relay-workflow-run.ts)\<close>

datatype SortError = CircularDependency string | StepNotFound string

text \<open>
  The three variables that \<open>visit\<close> closes over. The source calls the list
  \<open>sorted\<close>.
\<close>

record SortState =
  sortedSteps :: "WorkflowStep list"
  visited :: "string set"
  visiting :: "string set"

text \<open>\<open>new Map(steps.map(s => [s.name, s]))\<close>: a later entry replaces an earlier one.\<close>

definition stepMap :: "WorkflowStep list \<Rightarrow> string \<rightharpoonup> WorkflowStep" where
  "stepMap steps = map_of (rev (map (\<lambda>s. (name s, s)) steps))"

text \<open>\<open>step.depends || []\<close>\<close>

definition dependsOrEmpty :: "WorkflowStep \<Rightarrow> string list" where
  "dependsOrEmpty step = (case depends step of None \<Rightarrow> [] | Some ds \<Rightarrow> ds)"

text \<open>
  \<open>visit\<close>, and the loop over the dependencies inside it. A \<open>throw\<close> is the left
  summand; the local state is lost with it.
\<close>

function visit :: "WorkflowStep list \<Rightarrow> string \<Rightarrow> SortState \<Rightarrow> SortError + SortState"
  and visitDeps :: "WorkflowStep list \<Rightarrow> string list \<Rightarrow> SortState \<Rightarrow> SortError + SortState"
where
  "visit steps stepName st =
     (if stepName \<in> visited st then Inr st
      else if stepName \<in> visiting st then Inl (CircularDependency stepName)
      else
        (case stepMap steps stepName of
           None \<Rightarrow> Inl (StepNotFound stepName)
         | Some step \<Rightarrow>
             (case visitDeps steps (dependsOrEmpty step)
                     (st\<lparr>visiting := insert stepName (visiting st)\<rparr>) of
                Inl e \<Rightarrow> Inl e
              | Inr st2 \<Rightarrow>
                  Inr (st2\<lparr>visiting := visiting st2 - {stepName},
                           visited := insert stepName (visited st2),
                           sortedSteps := sortedSteps st2 @ [step]\<rparr>))))"
| "visitDeps steps [] st = Inr st"
| "visitDeps steps (dep # deps) st =
     (case visit steps dep st of
        Inl e \<Rightarrow> Inl e
      | Inr st' \<Rightarrow> visitDeps steps deps st')"
  by pat_completeness auto

text \<open>
  Termination. A successful \<open>visit\<close> hands back the \<open>visiting\<close> set it was given, so
  the steps of \<open>stepMap\<close> that are not being visited never grow in number along the
  loop, and \<open>visit\<close> takes one away before it recurses.
\<close>

lemma visit_keeps_visiting_partial:
  "visit_visitDeps_dom (Inl (steps, stepName, st)) \<Longrightarrow>
     visit steps stepName st = Inr st' \<Longrightarrow> visiting st' = visiting st"
  "visit_visitDeps_dom (Inr (steps, deps, st)) \<Longrightarrow>
     visitDeps steps deps st = Inr st' \<Longrightarrow> visiting st' = visiting st"
proof (induction steps stepName st and steps deps st arbitrary: st' and st'
    rule: visit_visitDeps.pinduct)
  case (1 steps stepName st)
  show ?case
  proof (cases "stepName \<in> visited st \<or> stepName \<in> visiting st")
    case True
    with "1.prems" "1.hyps" show ?thesis
      by (auto simp: visit.psimps split: if_splits)
  next
    case False
    with "1.prems" "1.hyps" obtain step st2 where
      step: "stepMap steps stepName = Some step" and
      deps: "visitDeps steps (dependsOrEmpty step)
               (st\<lparr>visiting := insert stepName (visiting st)\<rparr>) = Inr st2" and
      st': "st' = st2\<lparr>visiting := visiting st2 - {stepName},
                       visited := insert stepName (visited st2),
                       sortedSteps := sortedSteps st2 @ [step]\<rparr>"
      by (auto simp: visit.psimps split: option.splits sum.splits)
    from "1.IH" [OF _ _ step deps] False
    have "visiting st2 = insert stepName (visiting st)" by simp
    with False show ?thesis by (simp add: st')
  qed
next
  case (2 steps st)
  then show ?case by (simp add: visitDeps.psimps)
next
  case (3 steps dep deps st)
  from "3.prems" "3.hyps" obtain st1 where
    a: "visit steps dep st = Inr st1" and b: "visitDeps steps deps st1 = Inr st'"
    by (auto simp: visitDeps.psimps split: sum.splits)
  from "3.IH"(1) [OF a] "3.IH"(2) [OF a b] show ?case by simp
qed

definition sortMeasure :: "WorkflowStep list \<Rightarrow> SortState \<Rightarrow> nat" where
  "sortMeasure steps st = card (dom (stepMap steps) - visiting st)"

lemma sortMeasure_insert:
  "stepMap steps n = Some step \<Longrightarrow> n \<notin> visiting st \<Longrightarrow>
   sortMeasure steps (st\<lparr>visiting := insert n (visiting st)\<rparr>) < sortMeasure steps st"
proof -
  assume a: "stepMap steps n = Some step" "n \<notin> visiting st"
  have fin: "finite (dom (stepMap steps) - visiting st)"
    by (simp add: stepMap_def finite_dom_map_of)
  have eq: "dom (stepMap steps) - insert n (visiting st) = (dom (stepMap steps) - visiting st) - {n}"
    by auto
  have mem: "n \<in> dom (stepMap steps) - visiting st" using a by auto
  have v: "visiting (st\<lparr>visiting := insert n (visiting st)\<rparr>) = insert n (visiting st)"
    by simp
  show ?thesis
    unfolding sortMeasure_def v eq by (rule card_Diff1_less [OF fin mem])
qed

termination visit
proof (relation "inv_image (less_than <*lex*> less_than)
    (\<lambda>x. case x of
       Inl (steps, n, st) \<Rightarrow> (sortMeasure steps st, 0)
     | Inr (steps, ds, st) \<Rightarrow> (sortMeasure steps st, Suc (length ds)))", goal_cases)
  case 1
  show ?case by (intro wf_inv_image wf_lex_prod wf_less_than)
next
  case (2 steps stepName st step)
  then show ?case by (simp add: sortMeasure_insert)
next
  case (3 steps dep deps st)
  show ?case by simp
next
  case (4 steps dep deps st st')
  from visit_keeps_visiting_partial(1) [OF 4(2) 4(1)]
  have "sortMeasure steps st' = sortMeasure steps st" by (simp add: sortMeasure_def)
  then show ?case by simp
qed

declare visit.simps [simp del]

text \<open>The loop \<open>for (const step of steps) visit(step.name)\<close> and the function around it.\<close>

fun visitEach :: "WorkflowStep list \<Rightarrow> WorkflowStep list \<Rightarrow> SortState \<Rightarrow> SortError + SortState" where
  "visitEach steps [] st = Inr st"
| "visitEach steps (s # rest) st =
     (case visit steps (name s) st of
        Inl e \<Rightarrow> Inl e
      | Inr st' \<Rightarrow> visitEach steps rest st')"

definition topologicalSort :: "WorkflowStep list \<Rightarrow> SortError + WorkflowStep list" where
  "topologicalSort steps =
     (case visitEach steps steps \<lparr>sortedSteps = [], visited = {}, visiting = {}\<rparr> of
        Inl e \<Rightarrow> Inl e
      | Inr st \<Rightarrow> Inr (sortedSteps st))"

section \<open>Topological sort of the validation path (tools/relay-workflow-validate.ts)\<close>

text \<open>
  The variables that the validation path's \<open>visit\<close> closes over (\<open>order\<close>,
  \<open>visited\<close>, \<open>visiting\<close>, \<open>cycleStep\<close>), and the object that its
  \<open>topologicalSort\<close> returns.
\<close>

record ValidateSortState =
  order_v :: "string list"
  visited_v :: "string set"
  visiting_v :: "string set"
  cycleStep_v :: "string option"

record SortResult =
  order :: "string list"
  hasCycle :: bool
  cycleStep :: "string option"

text \<open>
  \<open>steps.find(s => s.name === stepName)?.depends\<close>: the first step of that name
  counts; no such step, or a step without \<open>depends\<close>, gives \<open>undefined\<close>.
\<close>

definition findDepends :: "WorkflowStep list \<Rightarrow> string \<Rightarrow> string list option" where
  "findDepends steps stepName =
     (case find (\<lambda>s. name s = stepName) steps of
        None \<Rightarrow> None
      | Some step \<Rightarrow> depends step)"

definition markDone :: "string \<Rightarrow> ValidateSortState \<Rightarrow> ValidateSortState" where
  "markDone stepName st =
     st\<lparr>visiting_v := visiting_v st - {stepName},
        visited_v := insert stepName (visited_v st),
        order_v := order_v st @ [stepName]\<rparr>"

function visit_validate ::
    "WorkflowStep list \<Rightarrow> string \<Rightarrow> ValidateSortState \<Rightarrow> bool \<times> ValidateSortState"
  and visitDeps_validate ::
    "WorkflowStep list \<Rightarrow> string list \<Rightarrow> ValidateSortState \<Rightarrow> bool \<times> ValidateSortState"
where
  "visit_validate steps stepName st =
     (if stepName \<in> visited_v st then (True, st)
      else if stepName \<in> visiting_v st then (False, st\<lparr>cycleStep_v := Some stepName\<rparr>)
      else
        (case findDepends steps stepName of
           None \<Rightarrow> (True, markDone stepName (st\<lparr>visiting_v := insert stepName (visiting_v st)\<rparr>))
         | Some deps \<Rightarrow>
             (case visitDeps_validate steps deps
                     (st\<lparr>visiting_v := insert stepName (visiting_v st)\<rparr>) of
                (ok, st2) \<Rightarrow> if ok then (True, markDone stepName st2) else (False, st2))))"
| "visitDeps_validate steps [] st = (True, st)"
| "visitDeps_validate steps (dep # deps) st =
     (case visit_validate steps dep st of
        (ok, st') \<Rightarrow> if ok then visitDeps_validate steps deps st' else (False, st'))"
  by pat_completeness auto

lemma visit_validate_keeps_visiting_partial:
  "visit_validate_visitDeps_validate_dom (Inl (steps, stepName, st)) \<Longrightarrow>
     visit_validate steps stepName st = (True, st') \<Longrightarrow> visiting_v st' = visiting_v st"
  "visit_validate_visitDeps_validate_dom (Inr (steps, deps, st)) \<Longrightarrow>
     visitDeps_validate steps deps st = (True, st') \<Longrightarrow> visiting_v st' = visiting_v st"
proof (induction steps stepName st and steps deps st arbitrary: st' and st'
    rule: visit_validate_visitDeps_validate.pinduct)
  case (1 steps stepName st)
  show ?case
  proof (cases "stepName \<in> visited_v st \<or> stepName \<in> visiting_v st")
    case True
    with "1.prems" "1.hyps" show ?thesis
      by (auto simp: visit_validate.psimps split: if_splits)
  next
    case False
    let ?st1 = "st\<lparr>visiting_v := insert stepName (visiting_v st)\<rparr>"
    show ?thesis
    proof (cases "findDepends steps stepName")
      case None
      with False "1.prems" "1.hyps" show ?thesis
        by (auto simp: visit_validate.psimps markDone_def)
    next
      case (Some deps)
      with False "1.prems" "1.hyps" obtain st2 where
        deps: "visitDeps_validate steps deps ?st1 = (True, st2)" and
        st': "st' = markDone stepName st2"
        by (auto simp: visit_validate.psimps split: prod.splits if_splits)
      from "1.IH" [OF _ _ Some deps] False
      have "visiting_v st2 = insert stepName (visiting_v st)" by simp
      with False show ?thesis by (simp add: st' markDone_def)
    qed
  qed
next
  case (2 steps st)
  then show ?case by (simp add: visitDeps_validate.psimps)
next
  case (3 steps dep deps st)
  from "3.prems" "3.hyps" obtain st1 where
    a: "visit_validate steps dep st = (True, st1)" and
    b: "visitDeps_validate steps deps st1 = (True, st')"
    by (auto simp: visitDeps_validate.psimps split: prod.splits if_splits)
  from "3.IH"(1) [OF a] "3.IH"(2) [OF a [symmetric] _ b] show ?case by simp
qed

definition validateMeasure :: "WorkflowStep list \<Rightarrow> ValidateSortState \<Rightarrow> nat" where
  "validateMeasure steps st = card (name ` set steps - visiting_v st)"

lemma findDepends_listed:
  "findDepends steps n = Some deps \<Longrightarrow> n \<in> name ` set steps"
  by (auto simp: findDepends_def find_Some_iff split: option.splits)

lemma validateMeasure_insert:
  "findDepends steps n = Some deps \<Longrightarrow> n \<notin> visiting_v st \<Longrightarrow>
   validateMeasure steps (st\<lparr>visiting_v := insert n (visiting_v st)\<rparr>) < validateMeasure steps st"
proof -
  assume a: "findDepends steps n = Some deps" "n \<notin> visiting_v st"
  have fin: "finite (name ` set steps - visiting_v st)"
    by simp
  have eq: "name ` set steps - insert n (visiting_v st) = (name ` set steps - visiting_v st) - {n}"
    by auto
  have mem: "n \<in> name ` set steps - visiting_v st"
    using a findDepends_listed by auto
  have v: "visiting_v (st\<lparr>visiting_v := insert n (visiting_v st)\<rparr>) = insert n (visiting_v st)"
    by simp
  show ?thesis
    unfolding validateMeasure_def v eq by (rule card_Diff1_less [OF fin mem])
qed

termination visit_validate
proof (relation "inv_image (less_than <*lex*> less_than)
    (\<lambda>x. case x of
       Inl (steps, n, st) \<Rightarrow> (validateMeasure steps st, 0)
     | Inr (steps, ds, st) \<Rightarrow> (validateMeasure steps st, Suc (length ds)))", goal_cases)
  case 1
  show ?case by (intro wf_inv_image wf_lex_prod wf_less_than)
next
  case (2 steps stepName st deps)
  then show ?case by (simp add: validateMeasure_insert)
next
  case (3 steps dep deps st)
  show ?case by simp
next
  case (4 steps dep deps st ok st')
  then have "visit_validate steps dep st = (True, st')" by simp
  from visit_validate_keeps_visiting_partial(1) [OF 4(3) this]
  have "validateMeasure steps st' = validateMeasure steps st" by (simp add: validateMeasure_def)
  then show ?case by simp
qed

declare visit_validate.simps [simp del]

fun visitEach_validate ::
  "WorkflowStep list \<Rightarrow> WorkflowStep list \<Rightarrow> ValidateSortState \<Rightarrow> SortResult" where
  "visitEach_validate steps [] st = \<lparr>order = order_v st, hasCycle = False, cycleStep = None\<rparr>"
| "visitEach_validate steps (s # rest) st =
     (case visit_validate steps (name s) st of
        (ok, st') \<Rightarrow>
          if ok then visitEach_validate steps rest st'
          else \<lparr>order = [], hasCycle = True, cycleStep = cycleStep_v st'\<rparr>)"

definition topologicalSort_validate :: "WorkflowStep list \<Rightarrow> SortResult" where
  "topologicalSort_validate steps =
     visitEach_validate steps steps
       \<lparr>order_v = [], visited_v = {}, visiting_v = {}, cycleStep_v = None\<rparr>"

section \<open>Dependency graphs and positions, for stating the properties of the sorts\<close>

text \<open>
  The dependency relation as the validation path reads it (first step of a name), and as
  the step list declares it (every step of a name).
\<close>

definition depGraph :: "WorkflowStep list \<Rightarrow> (string \<times> string) set" where
  "depGraph steps = {(a, b). \<exists>ds. findDepends steps a = Some ds \<and> b \<in> set ds}"

definition dependsOn :: "WorkflowStep list \<Rightarrow> (string \<times> string) set" where
  "dependsOn steps = {(a, b). \<exists>s \<in> set steps. name s = a \<and> b \<in> set (dependsOrEmpty s)}"

text \<open>Well-formed step lists: unique names, and every dependency names a listed step.\<close>

definition uniqueNames :: "WorkflowStep list \<Rightarrow> bool" where
  "uniqueNames steps \<longleftrightarrow> distinct (map name steps)"

definition dependsClosed :: "WorkflowStep list \<Rightarrow> bool" where
  "dependsClosed steps \<longleftrightarrow>
     (\<forall>s \<in> set steps. \<forall>d \<in> set (dependsOrEmpty s). d \<in> name ` set steps)"

text \<open>The index of the first occurrence of \<open>x\<close> in \<open>xs\<close> (the length if there is none).\<close>

definition position :: "'a \<Rightarrow> 'a list \<Rightarrow> nat" where
  "position x xs = length (takeWhile (\<lambda>y. y \<noteq> x) xs)"

text \<open>Every element of the list has its dependencies earlier in the list.\<close>

definition depsBefore :: "(string \<times> string) set \<Rightarrow> string list \<Rightarrow> bool" where
  "depsBefore G xs \<longleftrightarrow> (\<forall>pre n post. xs = pre @ n # post \<longrightarrow> G `` {n} \<subseteq> set pre)"

text \<open>
  The invariant of the validation path's traversal: \<open>order\<close> lists the visited names
  once each, every one after its dependencies, and no name is both visited and being
  visited.
\<close>

definition sortInv :: "WorkflowStep list \<Rightarrow> ValidateSortState \<Rightarrow> bool" where
  "sortInv steps st \<longleftrightarrow>
     distinct (order_v st) \<and> set (order_v st) = visited_v st \<and>
     visited_v st \<inter> visiting_v st = {} \<and>
     depsBefore (depGraph steps) (order_v st)"

definition initialValidateState :: ValidateSortState where
  "initialValidateState = \<lparr>order_v = [], visited_v = {}, visiting_v = {}, cycleStep_v = None\<rparr>"

text \<open>
  The state of the execution path's traversal read as a state of the validation path's:
  the sorted steps by their names.
\<close>

definition abstractState :: "string option \<Rightarrow> SortState \<Rightarrow> ValidateSortState" where
  "abstractState c st = \<lparr>order_v = map name (sortedSteps st), visited_v = visited st,
     visiting_v = visiting st, cycleStep_v = c\<rparr>"

definition initialSortState :: SortState where
  "initialSortState = \<lparr>sortedSteps = [], visited = {}, visiting = {}\<rparr>"


section \<open>Strings\<close>

text \<open>
  Strings are lists of characters; the models below are exact on ASCII text.
  \<open>String.prototype.split\<close> with a one-character separator, and \<open>trim\<close> with the
  ASCII white space characters.
\<close>

fun splitOn :: "char \<Rightarrow> string \<Rightarrow> string list" where
  "splitOn c [] = [[]]"
| "splitOn c (x # xs) =
     (if x = c then [] # splitOn c xs
      else (case splitOn c xs of
              [] \<Rightarrow> [[x]]
            | p # ps \<Rightarrow> (x # p) # ps))"

definition isSpace :: "char \<Rightarrow> bool" where
  "isSpace ch \<longleftrightarrow> ch \<in> {CHR '' '', CHR 0x09, CHR 0x0A, CHR 0x0B, CHR 0x0C, CHR 0x0D}"

definition trim :: "string \<Rightarrow> string" where
  "trim s = rev (dropWhile isSpace (rev (dropWhile isSpace s)))"

text \<open>\<open>!!s\<close> for an optional string: present and not empty.\<close>

definition truthy :: "string option \<Rightarrow> bool" where
  "truthy s \<longleftrightarrow> (case s of None \<Rightarrow> False | Some t \<Rightarrow> t \<noteq> [])"

section \<open>Cost estimator (budget/estimator.ts)\<close>

text \<open>\<open>PRICING\<close>: input and output price per 1k tokens.\<close>

definition PRICING :: "(string \<times> rat \<times> rat) list" where
  "PRICING =
     [(''openai:gpt-4o'', 0.0025, 0.01),
      (''openai:gpt-4o-mini'', 0.00015, 0.0006),
      (''openai:gpt-4-turbo'', 0.01, 0.03),
      (''openai:gpt-4'', 0.03, 0.06),
      (''openai:gpt-3.5-turbo'', 0.0005, 0.0015),
      (''openai:o1'', 0.015, 0.06),
      (''openai:o1-mini'', 0.003, 0.012),
      (''openai:o1-preview'', 0.015, 0.06),
      (''anthropic:claude-3-5-sonnet-20241022'', 0.003, 0.015),
      (''anthropic:claude-3-5-sonnet-latest'', 0.003, 0.015),
      (''anthropic:claude-3-5-haiku-20241022'', 0.0008, 0.004),
      (''anthropic:claude-3-5-haiku-latest'', 0.0008, 0.004),
      (''anthropic:claude-3-opus-20240229'', 0.015, 0.075),
      (''anthropic:claude-3-sonnet-20240229'', 0.003, 0.015),
      (''anthropic:claude-3-haiku-20240307'', 0.00025, 0.00125),
      (''google:gemini-2.0-flash'', 0.0001, 0.0004),
      (''google:gemini-2.0-flash-exp'', 0.0001, 0.0004),
      (''google:gemini-1.5-pro'', 0.00125, 0.005),
      (''google:gemini-1.5-flash'', 0.000075, 0.0003),
      (''xai:grok-2'', 0.002, 0.01),
      (''xai:grok-beta'', 0.005, 0.015)]"







section \<open>Workflow validation (tools/relay-workflow-validate.ts)\<close>

definition isValidModelFormat :: "string \<Rightarrow> bool" where
  "isValidModelFormat m =
     (case splitOn CHR '':'' m of
        [provider, modelId] \<Rightarrow>
          provider \<in> set [''openai'', ''anthropic'', ''google'', ''xai'', ''local''] \<and> modelId \<noteq> []
      | _ \<Rightarrow> False)"

definition isKnownModel :: "string \<Rightarrow> bool" where
  "isKnownModel m \<longleftrightarrow> m \<in> fst ` set PRICING"

text \<open>
  A JavaScript \<open>Map\<close> with string keys, as the list of its entries in insertion order:
  \<open>set\<close> on a present key replaces the value where it stands.
\<close>

definition mapSet :: "string \<Rightarrow> 'v \<Rightarrow> (string \<times> 'v) list \<Rightarrow> (string \<times> 'v) list" where
  "mapSet k v m =
     (if k \<in> fst ` set m then map (\<lambda>(k', v'). if k' = k then (k', v) else (k', v')) m
      else m @ [(k, v)])"

text \<open>
  \<open>getLevel\<close> recurses through \<open>depends\<close> with no guard of its own; on a step map with
  a cycle it does not return. The first argument bounds the recursion depth, and
  \<open>None\<close> says that the bound was reached.
\<close>

fun getLevel ::
    "nat \<Rightarrow> WorkflowStep list \<Rightarrow> string \<Rightarrow> (string \<times> nat) list \<Rightarrow> (nat \<times> (string \<times> nat) list) option"
  and getLevels ::
    "nat \<Rightarrow> WorkflowStep list \<Rightarrow> string list \<Rightarrow> (string \<times> nat) list
       \<Rightarrow> (nat list \<times> (string \<times> nat) list) option"
where
  "getLevel fuel steps stepName levels =
     (case map_of levels stepName of
        Some l \<Rightarrow> Some (l, levels)
      | None \<Rightarrow>
          (case (case stepMap steps stepName of None \<Rightarrow> None | Some s \<Rightarrow> depends s) of
             None \<Rightarrow> Some (0, mapSet stepName 0 levels)
           | Some [] \<Rightarrow> Some (0, mapSet stepName 0 levels)
           | Some (d # ds) \<Rightarrow>
               (case fuel of
                  0 \<Rightarrow> None
                | Suc fuel' \<Rightarrow>
                    (case getLevels fuel' steps (d # ds) levels of
                       None \<Rightarrow> None
                     | Some (ls, levels') \<Rightarrow>
                         (let level = fold max ls 0 + 1
                          in Some (level, mapSet stepName level levels'))))))"
| "getLevels fuel steps [] levels = Some ([], levels)"
| "getLevels fuel steps (d # ds) levels =
     (case getLevel fuel steps d levels of
        None \<Rightarrow> None
      | Some (l, levels') \<Rightarrow>
          (case getLevels fuel steps ds levels' of
             None \<Rightarrow> None
           | Some (ls, levels'') \<Rightarrow> Some (l # ls, levels'')))"

definition calculateParallelGroups :: "nat \<Rightarrow> WorkflowStep list \<Rightarrow> string list list option" where
  "calculateParallelGroups fuel steps =
     (case getLevels fuel steps (map name steps) [] of
        None \<Rightarrow> None
      | Some (ls, levels) \<Rightarrow>
          Some (filter (\<lambda>g. g \<noteq> [])
                  (map (\<lambda>i. map fst (filter (\<lambda>(n, l). l = i) levels))
                       [0 ..< (if levels = [] then 0 else Suc (fold max (map snd levels) 0))])))"

text \<open>The texts of the errors and warnings, with what each one prints.\<close>

datatype ValidationMessage =
    DuplicateStepName string nat
  | StepNameRequired
  | ModelNeedsPrompt
  | PromptNeedsModel
  | PassThroughStep
  | InvalidModelFormat string
  | UnknownModel string
  | InvalidMcpFormat string
  | DependencyNotFound string
  | SelfDependency
  | CircularDependencyDetected "string option"

record ValidationError =
  errStep :: string
  errField :: string
  errMessage :: ValidationMessage

record ValidationWarning =
  warnStep :: string
  warnMessage :: ValidationMessage

record RelayWorkflowValidateResponse =
  valid :: bool
  errors :: "ValidationError list"
  warnings :: "ValidationWarning list"
  totalSteps :: nat
  executionOrder :: "string list"
  parallelGroups :: "string list list"

text \<open>The count of each name, in the order of first occurrence.\<close>

fun countNames :: "string list \<Rightarrow> (string \<times> nat) list \<Rightarrow> (string \<times> nat) list" where
  "countNames [] m = m"
| "countNames (n # ns) m =
     countNames ns (mapSet n ((case map_of m n of None \<Rightarrow> 0 | Some c \<Rightarrow> c) + 1) m)"

definition duplicateErrors :: "WorkflowStep list \<Rightarrow> ValidationError list" where
  "duplicateErrors steps =
     map (\<lambda>(n, c). \<lparr>errStep = n, errField = ''name'', errMessage = DuplicateStepName n c\<rparr>)
       (filter (\<lambda>(n, c). c > 1) (countNames (map name steps) []))"

text \<open>The errors that the loop over \<open>step.depends\<close> pushes for one step.\<close>

fun dependsErrors :: "string set \<Rightarrow> string \<Rightarrow> string list \<Rightarrow> ValidationError list" where
  "dependsErrors stepNames n [] = []"
| "dependsErrors stepNames n (dep # deps) =
     (if dep \<notin> stepNames
      then [\<lparr>errStep = n, errField = ''depends'', errMessage = DependencyNotFound dep\<rparr>] else []) @
     (if dep = n
      then [\<lparr>errStep = n, errField = ''depends'', errMessage = SelfDependency\<rparr>] else []) @
     dependsErrors stepNames n deps"

text \<open>The errors and the warnings that one pass of the loop over the steps pushes.\<close>

definition validateStep ::
  "string set \<Rightarrow> WorkflowStep \<Rightarrow> ValidationError list \<times> ValidationWarning list" where
  "validateStep stepNames step =
     (if name step = [] \<or> trim (name step) = [] then
        ([\<lparr>errStep = ''(unnamed)'', errField = ''name'', errMessage = StepNameRequired\<rparr>], [])
      else
        (let hasModel = truthy (model step);
             hasPrompt = truthy (prompt step);
             hasMcp = truthy (mcp step)
         in
          ((if hasModel \<and> \<not> hasPrompt
            then [\<lparr>errStep = name step, errField = ''prompt'', errMessage = ModelNeedsPrompt\<rparr>]
            else []) @
           (if hasPrompt \<and> \<not> hasModel
            then [\<lparr>errStep = name step, errField = ''model'', errMessage = PromptNeedsModel\<rparr>]
            else []) @
           (if hasModel \<and> \<not> isValidModelFormat (the (model step))
            then [\<lparr>errStep = name step, errField = ''model'',
                   errMessage = InvalidModelFormat (the (model step))\<rparr>]
            else []) @
           (if hasMcp \<and> length (splitOn CHR '':'' (the (mcp step))) \<noteq> 2
            then [\<lparr>errStep = name step, errField = ''mcp'',
                   errMessage = InvalidMcpFormat (the (mcp step))\<rparr>]
            else []) @
           (case depends step of
              None \<Rightarrow> []
            | Some deps \<Rightarrow> dependsErrors stepNames (name step) deps),
           (if \<not> hasModel \<and> \<not> hasMcp
            then [\<lparr>warnStep = name step, warnMessage = PassThroughStep\<rparr>]
            else []) @
           (if hasModel \<and> isValidModelFormat (the (model step)) \<and> \<not> isKnownModel (the (model step))
            then [\<lparr>warnStep = name step, warnMessage = UnknownModel (the (model step))\<rparr>]
            else []))))"

text \<open>
  \<open>relayWorkflowValidate\<close>. The first argument is the recursion bound of
  \<open>calculateParallelGroups\<close>; \<open>None\<close> says that no response is returned.
  \<open>cycleStep || '(unknown)'\<close> is the cycle step unless that is absent or empty.
\<close>

definition relayWorkflowValidate ::
  "nat \<Rightarrow> WorkflowStep list \<Rightarrow> RelayWorkflowValidateResponse option" where
  "relayWorkflowValidate fuel steps =
     (let stepNames = set (map name steps);
          perStep = map (validateStep stepNames) steps;
          errors1 = duplicateErrors steps @ concat (map fst perStep);
          warnings1 = concat (map snd perStep);
          sortResult = topologicalSort_validate steps;
          errors2 = errors1 @
            (if hasCycle sortResult
             then [\<lparr>errStep = (case cycleStep sortResult of
                                  None \<Rightarrow> ''(unknown)''
                                | Some c \<Rightarrow> if c = [] then ''(unknown)'' else c),
                    errField = ''depends'',
                    errMessage = CircularDependencyDetected (cycleStep sortResult)\<rparr>]
             else [])
      in case (if hasCycle sortResult then Some [] else calculateParallelGroups fuel steps) of
           None \<Rightarrow> None
         | Some groups \<Rightarrow>
             Some \<lparr>valid = (errors2 = []),
                   errors = errors2,
                   warnings = warnings1,
                   totalSteps = length steps,
                   executionOrder = (if hasCycle sortResult then [] else order sortResult),
                   parallelGroups = groups\<rparr>)"

section \<open>Template interpolation (tools/relay-workflow-run.ts)\<close>

text \<open>
  The decimal digits of a natural number, and \<open>String(n)\<close> for an integer below
  \<open>10^21\<close> in absolute value.
\<close>

definition digitChar :: "nat \<Rightarrow> char" where
  "digitChar d = char_of (48 + d)"

function showNat :: "nat \<Rightarrow> string" where
  "showNat n = (if n < 10 then [digitChar n] else showNat (n div 10) @ [digitChar (n mod 10)])"
  by pat_completeness auto
termination
  by (relation "measure id") auto

declare showNat.simps [simp del]

definition showInt :: "int \<Rightarrow> string" where
  "showInt i = (if i < 0 then CHR ''-'' # showNat (nat (- i)) else showNat (nat i))"

text \<open>
  \<open>value[part]\<close> for a value that is neither \<open>null\<close> nor \<open>undefined\<close>; \<open>None\<close> is
  \<open>undefined\<close>. Only own data properties are modelled: the properties of an object, the
  elements and the length of an array or a string. Members inherited from a prototype
  (\<open>constructor\<close>, \<open>toString\<close>, ...) are outside the model.
\<close>

definition indexOf :: "string \<Rightarrow> nat \<Rightarrow> nat option" where
  "indexOf part n = find (\<lambda>i. showNat i = part) [0 ..< n]"

fun getProp :: "json \<Rightarrow> string \<Rightarrow> json option" where
  "getProp (JObj kvs) part = map_of kvs part"
| "getProp (JArr xs) part =
     (if part = ''length'' then Some (JNum (int (length xs)))
      else (case indexOf part (length xs) of None \<Rightarrow> None | Some i \<Rightarrow> Some (xs ! i)))"
| "getProp (JStr s) part =
     (if part = ''length'' then Some (JNum (int (length s)))
      else (case indexOf part (length s) of None \<Rightarrow> None | Some i \<Rightarrow> Some (JStr [s ! i])))"
| "getProp (JNum n) part = None"
| "getProp (JBool b) part = None"
| "getProp JNull part = None"

text \<open>\<open>JSON.stringify\<close> on these values.\<close>

definition hexDigit :: "nat \<Rightarrow> char" where
  "hexDigit d = (if d < 10 then char_of (48 + d) else char_of (87 + d))"

definition escapeChar :: "char \<Rightarrow> string" where
  "escapeChar c =
     (if c = CHR 0x22 then [CHR 0x5C, CHR 0x22]
      else if c = CHR 0x5C then [CHR 0x5C, CHR 0x5C]
      else if c = CHR 0x08 then [CHR 0x5C, CHR ''b'']
      else if c = CHR 0x0C then [CHR 0x5C, CHR ''f'']
      else if c = CHR 0x0A then [CHR 0x5C, CHR ''n'']
      else if c = CHR 0x0D then [CHR 0x5C, CHR ''r'']
      else if c = CHR 0x09 then [CHR 0x5C, CHR ''t'']
      else if of_char c < (32 :: nat)
        then [CHR 0x5C, CHR ''u'', CHR ''0'', CHR ''0'',
              hexDigit (of_char c div 16), hexDigit (of_char c mod 16)]
      else [c])"

definition quoteString :: "string \<Rightarrow> string" where
  "quoteString s = CHR 0x22 # concat (map escapeChar s) @ [CHR 0x22]"

fun joinWith :: "string \<Rightarrow> string list \<Rightarrow> string" where
  "joinWith sep [] = []"
| "joinWith sep [x] = x"
| "joinWith sep (x # y # ys) = x @ sep @ joinWith sep (y # ys)"

fun JSON_stringify :: "json \<Rightarrow> string" where
  "JSON_stringify JNull = ''null''"
| "JSON_stringify (JBool b) = (if b then ''true'' else ''false'')"
| "JSON_stringify (JNum n) = showInt n"
| "JSON_stringify (JStr s) = quoteString s"
| "JSON_stringify (JArr xs) = ''['' @ joinWith '','' (map JSON_stringify xs) @ '']''"
| "JSON_stringify (JObj kvs) =
     ''{'' @ joinWith '','' (map (\<lambda>kv. quoteString (fst kv) @ '':'' @ JSON_stringify (snd kv)) kvs)
       @ ''}''"

text \<open>
  What the replacement callback returns once the loop over the parts has ended:
  \<open>JSON.stringify(value)\<close> when \<open>typeof value === 'object'\<close> (objects, arrays and
  \<open>null\<close>), and \<open>String(value ?? '')\<close> otherwise.
\<close>

fun typeofObject :: "json \<Rightarrow> bool" where
  "typeofObject JNull = True"
| "typeofObject (JArr xs) = True"
| "typeofObject (JObj kvs) = True"
| "typeofObject _ = False"

fun jsString :: "json \<Rightarrow> string" where
  "jsString (JStr s) = s"
| "jsString (JNum n) = showInt n"
| "jsString (JBool b) = (if b then ''true'' else ''false'')"
| "jsString j = JSON_stringify j"

definition render :: "json option \<Rightarrow> string" where
  "render v =
     (case v of
        None \<Rightarrow> []
      | Some j \<Rightarrow> if typeofObject j then JSON_stringify j else jsString j)"

text \<open>
  The loop \<open>for (const part of parts)\<close>: it returns the empty string as soon as the
  value in hand is \<open>null\<close> or \<open>undefined\<close>, before it reads the next part.
\<close>

fun walkParts :: "json option \<Rightarrow> string list \<Rightarrow> string" where
  "walkParts v [] = render v"
| "walkParts v (part # parts) =
     (case v of
        None \<Rightarrow> []
      | Some JNull \<Rightarrow> []
      | Some j \<Rightarrow> walkParts (getProp j part) parts)"

text \<open>
  The execution context \<open>{ input, steps }\<close>; \<open>steps\<close> is the object that the engine
  fills, as its entries in insertion order.
\<close>

record ExecutionContext =
  ctxInput :: json
  ctxSteps :: "(string \<times> json) list"

definition contextValue :: "ExecutionContext \<Rightarrow> json" where
  "contextValue ctx = JObj [(''input'', ctxInput ctx), (''steps'', JObj (ctxSteps ctx))]"

definition replacePlaceholder :: "ExecutionContext \<Rightarrow> string \<Rightarrow> string" where
  "replacePlaceholder ctx path =
     walkParts (Some (contextValue ctx)) (splitOn CHR ''.'' (trim path))"

text \<open>
  One match of \<open>/\{\{([^}]+)\}\}/\<close> at the head of the string: the captured path and
  the rest after the closing braces. The class \<open>[^}]+\<close> is greedy and the next character
  after its longest run is a \<open>}\<close> or the end, so no shorter run can match either.
\<close>

definition matchPlaceholder :: "string \<Rightarrow> (string \<times> string) option" where
  "matchPlaceholder s =
     (if take 2 s = ''{{'' then
        (let body = takeWhile (\<lambda>c. c \<noteq> CHR ''}'') (drop 2 s);
             after = dropWhile (\<lambda>c. c \<noteq> CHR ''}'') (drop 2 s)
         in if body \<noteq> [] \<and> take 2 after = ''}}'' then Some (body, drop 2 after) else None)
      else None)"

lemma matchPlaceholder_shorter:
  "matchPlaceholder s = Some (path, rest) \<Longrightarrow> length rest < length s"
proof -
  assume m: "matchPlaceholder s = Some (path, rest)"
  let ?after = "dropWhile (\<lambda>c. c \<noteq> CHR ''}'') (drop 2 s)"
  from m have r: "rest = drop 2 ?after" and s2: "take 2 s = ''{{''"
    by (auto simp: matchPlaceholder_def Let_def split: if_splits)
  have "length ?after \<le> length (drop 2 s)" by (rule length_dropWhile_le)
  moreover from s2 have "2 \<le> length s" by (cases s; cases "tl s") auto
  ultimately show ?thesis by (simp add: r)
qed

text \<open>\<open>template.replace(regex, callback)\<close> with the global flag, from left to right.\<close>

function interpolate :: "string \<Rightarrow> ExecutionContext \<Rightarrow> string" where
  "interpolate [] ctx = []"
| "interpolate (c # cs) ctx =
     (case matchPlaceholder (c # cs) of
        Some (path, rest) \<Rightarrow> replacePlaceholder ctx path @ interpolate rest ctx
      | None \<Rightarrow> c # interpolate cs ctx)"
  by pat_completeness auto
termination
  by (relation "measure (\<lambda>(s, ctx). length s)") (auto dest: matchPlaceholder_shorter)

declare interpolate.simps [simp del]


section \<open>Single model call (tools/relay-run.ts)\<close>













section \<open>Workflow execution (tools/relay-workflow-run.ts)\<close>















section \<open>Example inputs\<close>

definition exampleConfig :: McpServerConfig where
  "exampleConfig = \<lparr>maxDailyCostUsd = 5, maxSingleCallCostUsd = 1/2, maxCallsPerHour = 100,
     providers = [''openai'' \<mapsto> ''sk-test'']\<rparr>"

definition clockAt :: "int \<Rightarrow> Clock" where
  "clockAt t = \<lparr>dateNow = t, hourNow = t, stampNow = t\<rparr>"

definition exampleBudget :: BudgetState where
  "exampleBudget = \<lparr>dailySpendUsd = 1, hourlyCallCount = 2, lastResetDate = 0, lastHourlyReset = 0\<rparr>"

definition exampleRun :: "string \<Rightarrow> RunRecord" where
  "exampleRun rid = \<lparr>runId = rid, runType = Single, runModel = Some ''openai:gpt-4o'',
     workflowName = None, runSuccess = True, startTime = 0, durationMs = 5, totalTokens = 7,
     estimatedProviderCostUsd = 0, contextReduction = None\<rparr>"

text \<open>A pass-through step with a name and a \<open>depends\<close> list.\<close>

definition plainStep :: "string \<Rightarrow> string list \<Rightarrow> WorkflowStep" where
  "plainStep n ds = \<lparr>name = n, model = None, prompt = None, systemPrompt = None,
     depends = Some ds, mcp = None, params = None, schema = None\<rparr>"

definition diamond :: "WorkflowStep list" where
  "diamond = [plainStep ''A'' [''C''], plainStep ''B'' [], plainStep ''C'' []]"


definition shadowedSelfLoop :: "WorkflowStep list" where
  "shadowedSelfLoop = [plainStep ''A'' [], plainStep ''A'' [''A'']]"

definition bobContext :: ExecutionContext where
  "bobContext = \<lparr>ctxInput = JObj [(''name'', JStr ''Bob''), (''nick'', JNull)], ctxSteps = []\<rparr>"







section \<open>Properties of the budget tracker and the run store\<close>

lemma maybeReset_daily_keep:
  "\<not> dailyResetDue clk st \<Longrightarrow>
   dailySpendUsd (maybeResetCounters clk st) = dailySpendUsd st \<and>
   lastResetDate (maybeResetCounters clk st) = lastResetDate st"
  by (simp add: maybeResetCounters_def dailyResetDue_def Let_def)

lemma maybeReset_daily_reset:
  "dailyResetDue clk st \<Longrightarrow>
   dailySpendUsd (maybeResetCounters clk st) = 0 \<and>
   lastResetDate (maybeResetCounters clk st) = getCurrentDateUTC (dateNow clk)"
  by (simp add: maybeResetCounters_def dailyResetDue_def Let_def)

lemma maybeReset_hourly_keep:
  "\<not> hourlyResetDue clk st \<Longrightarrow>
   hourlyCallCount (maybeResetCounters clk st) = hourlyCallCount st \<and>
   lastHourlyReset (maybeResetCounters clk st) = lastHourlyReset st"
  by (simp add: maybeResetCounters_def hourlyResetDue_def shouldResetHourly_def Let_def)

lemma maybeReset_hourly_reset:
  "hourlyResetDue clk st \<Longrightarrow>
   hourlyCallCount (maybeResetCounters clk st) = 0 \<and>
   lastHourlyReset (maybeResetCounters clk st) = stampNow clk"
  by (simp add: maybeResetCounters_def hourlyResetDue_def shouldResetHourly_def Let_def)

lemma checkBudget_state: "snd (checkBudget clk config c st) = maybeResetCounters clk st"
  by (simp add: checkBudget_def Let_def)

lemma budgetCall_markers:
  "lastResetDate (budgetCall config clk c st) = lastResetDate (maybeResetCounters clk st) \<and>
   lastHourlyReset (budgetCall config clk c st) = lastHourlyReset (maybeResetCounters clk st)"
  by (cases c) (simp_all add: checkBudget_state recordCost_def Let_def)

text \<open>
  Claim C5. After the lazy window check, \<open>checkBudget\<close> tests the hourly call count, then
  the daily spend, then the single-call cost, and the first test that fails gives the
  denial; the call is denied exactly when the hourly count has reached
  \<open>maxCallsPerHour\<close>, or the daily spend plus the estimate is above
  \<open>maxDailyCostUsd\<close>, or the estimate is above \<open>maxSingleCallCostUsd\<close>, and is
  allowed otherwise. The state it leaves is the state after the window check.
\<close>

theorem checkBudget_policy:
  "(let st = maybeResetCounters clk st0;
        r = fst (checkBudget clk config c st0)
    in snd (checkBudget clk config c st0) = st \<and>
       error r =
         (if maxCallsPerHour config \<le> hourlyCallCount st
            then Some (HourlyCallLimitReached (maxCallsPerHour config))
          else if maxDailyCostUsd config < dailySpendUsd st + c
            then Some (DailyBudgetExceeded (dailySpendUsd st) (maxDailyCostUsd config))
          else if maxSingleCallCostUsd config < c
            then Some (SingleCallLimitExceeded c (maxSingleCallCostUsd config))
          else None) \<and>
       (allowed r \<longleftrightarrow> error r = None) \<and>
       (\<not> allowed r \<longleftrightarrow>
          maxCallsPerHour config \<le> hourlyCallCount st \<or>
          maxDailyCostUsd config < dailySpendUsd st + c \<or>
          maxSingleCallCostUsd config < c))"
  by (simp add: checkBudget_def Let_def)

theorem checkBudget_policy_witness:
  "fst (checkBudget (clockAt 1000) exampleConfig 5 exampleBudget)
     = \<lparr>allowed = False, error = Some (DailyBudgetExceeded 1 5),
        currentDailySpend = 1, currentHourlyCalls = 2\<rparr> \<and>
   allowed (fst (checkBudget (clockAt 1000) exampleConfig (1/4) exampleBudget))"
  using checkBudget_policy [of "clockAt 1000" exampleBudget exampleConfig 5]
    checkBudget_policy [of "clockAt 1000" exampleBudget exampleConfig "1/4"]
  by (simp add: checkBudget_def maybeResetCounters_def getCurrentDateUTC_def msPerDay_def
      shouldResetHourly_def hourInMs_def exampleConfig_def exampleBudget_def clockAt_def Let_def)

lemma recordCost_within:
  "\<not> dailyResetDue clk st \<Longrightarrow> \<not> hourlyResetDue clk st \<Longrightarrow>
   recordCost clk c st =
     st\<lparr>dailySpendUsd := dailySpendUsd st + c, hourlyCallCount := hourlyCallCount st + 1\<rparr>"
  by (simp add: recordCost_def maybeResetCounters_def dailyResetDue_def hourlyResetDue_def
      shouldResetHourly_def Let_def)

lemma resetDue_cong:
  "lastResetDate st' = lastResetDate st \<Longrightarrow> dailyResetDue clk st' = dailyResetDue clk st"
  "lastHourlyReset st' = lastHourlyReset st \<Longrightarrow> hourlyResetDue clk st' = hourlyResetDue clk st"
  by (simp_all add: dailyResetDue_def hourlyResetDue_def shouldResetHourly_def)

lemma recordCosts_within:
  "\<forall>clk \<in> fst ` set calls. \<not> dailyResetDue clk st \<and> \<not> hourlyResetDue clk st \<Longrightarrow>
   recordCosts calls st =
     st\<lparr>dailySpendUsd := dailySpendUsd st + sum_list (map snd calls),
        hourlyCallCount := hourlyCallCount st + length calls\<rparr>"
proof (induction calls arbitrary: st)
  case Nil
  then show ?case by simp
next
  case (Cons a calls)
  obtain clk c where a: "a = (clk, c)" by (cases a)
  from Cons.prems a have now: "\<not> dailyResetDue clk st" "\<not> hourlyResetDue clk st"
    by auto
  let ?st = "recordCost clk c st"
  have st: "?st = st\<lparr>dailySpendUsd := dailySpendUsd st + c,
                       hourlyCallCount := hourlyCallCount st + 1\<rparr>"
    by (rule recordCost_within [OF now])
  have mk: "lastResetDate ?st = lastResetDate st" "lastHourlyReset ?st = lastHourlyReset st"
    by (simp_all add: st)
  have "\<forall>k \<in> fst ` set calls. \<not> dailyResetDue k ?st \<and> \<not> hourlyResetDue k ?st"
    using Cons.prems by (simp add: resetDue_cong(1) [OF mk(1)] resetDue_cong(2) [OF mk(2)])
  from Cons.IH [OF this] have "recordCosts calls ?st =
      ?st\<lparr>dailySpendUsd := dailySpendUsd ?st + sum_list (map snd calls),
          hourlyCallCount := hourlyCallCount ?st + length calls\<rparr>" .
  then have "recordCosts (a # calls) st =
      ?st\<lparr>dailySpendUsd := dailySpendUsd ?st + sum_list (map snd calls),
          hourlyCallCount := hourlyCallCount ?st + length calls\<rparr>"
    by (simp add: a)
  also have "\<dots> = st\<lparr>dailySpendUsd := dailySpendUsd st + sum_list (map snd (a # calls)),
        hourlyCallCount := hourlyCallCount st + length (a # calls)\<rparr>"
    unfolding st by (simp add: a add.assoc)
  finally show ?case .
qed

text \<open>
  Claim C6. \<open>recordCost\<close> is a total function: it adds the actual cost to the daily
  spend and one to the hourly call count, after the window check. For a sequence of
  \<open>recordCost\<close> calls none of which crosses a window boundary, after every prefix of
  \<open>n\<close> calls the daily spend is the starting value plus the sum of the costs passed
  in and the call count is the starting value plus \<open>n\<close>; with non-negative costs
  both counters never decrease along the sequence.
\<close>

theorem recordCost_accumulates:
  "(dailySpendUsd (recordCost clk c st) = dailySpendUsd (maybeResetCounters clk st) + c \<and>
    hourlyCallCount (recordCost clk c st) = hourlyCallCount (maybeResetCounters clk st) + 1) \<and>
   ((\<forall>k \<in> fst ` set calls. \<not> dailyResetDue k st \<and> \<not> hourlyResetDue k st) \<longrightarrow>
      (\<forall>n \<le> length calls.
         dailySpendUsd (recordCosts (take n calls) st)
           = dailySpendUsd st + sum_list (map snd (take n calls)) \<and>
         hourlyCallCount (recordCosts (take n calls) st) = hourlyCallCount st + n) \<and>
      ((\<forall>a \<in> snd ` set calls. 0 \<le> a) \<longrightarrow>
         (\<forall>m n. m \<le> n \<longrightarrow> n \<le> length calls \<longrightarrow>
            dailySpendUsd (recordCosts (take m calls) st)
              \<le> dailySpendUsd (recordCosts (take n calls) st) \<and>
            hourlyCallCount (recordCosts (take m calls) st)
              \<le> hourlyCallCount (recordCosts (take n calls) st))))"
proof (intro conjI impI)
  show "dailySpendUsd (recordCost clk c st) = dailySpendUsd (maybeResetCounters clk st) + c"
    by (simp add: recordCost_def Let_def)
  show "hourlyCallCount (recordCost clk c st) = hourlyCallCount (maybeResetCounters clk st) + 1"
    by (simp add: recordCost_def Let_def)
next
  assume win: "\<forall>k \<in> fst ` set calls. \<not> dailyResetDue k st \<and> \<not> hourlyResetDue k st"
  have pre: "recordCosts (take n calls) st =
      st\<lparr>dailySpendUsd := dailySpendUsd st + sum_list (map snd (take n calls)),
         hourlyCallCount := hourlyCallCount st + length (take n calls)\<rparr>" for n
  proof (rule recordCosts_within)
    show "\<forall>k \<in> fst ` set (take n calls). \<not> dailyResetDue k st \<and> \<not> hourlyResetDue k st"
      using win by (auto dest: in_set_takeD)
  qed
  show "\<forall>n \<le> length calls.
         dailySpendUsd (recordCosts (take n calls) st)
           = dailySpendUsd st + sum_list (map snd (take n calls)) \<and>
         hourlyCallCount (recordCosts (take n calls) st) = hourlyCallCount st + n"
    by (simp add: pre)
  assume nonneg: "\<forall>a \<in> snd ` set calls. 0 \<le> a"
  show "\<forall>m n. m \<le> n \<longrightarrow> n \<le> length calls \<longrightarrow>
            dailySpendUsd (recordCosts (take m calls) st)
              \<le> dailySpendUsd (recordCosts (take n calls) st) \<and>
            hourlyCallCount (recordCosts (take m calls) st)
              \<le> hourlyCallCount (recordCosts (take n calls) st)"
  proof (intro allI impI)
    fix m n :: nat
    assume mn: "m \<le> n" and n: "n \<le> length calls"
    have split: "take n calls = take m calls @ drop m (take n calls)"
    proof -
      have "take m (take n calls) = take m calls" using mn by (simp add: min_def)
      then show ?thesis using append_take_drop_id [of m "take n calls"] by simp
    qed
    have "\<forall>a \<in> set (map snd (drop m (take n calls))). 0 \<le> a"
      using nonneg by (auto dest!: in_set_dropD in_set_takeD)
    then have "0 \<le> sum_list (map snd (drop m (take n calls)))"
      by (intro sum_list_nonneg) auto
    moreover have "sum_list (map snd (take n calls)) =
        sum_list (map snd (take m calls)) + sum_list (map snd (drop m (take n calls)))"
      using arg_cong [OF split, of "\<lambda>xs. sum_list (map snd xs)"] by simp
    ultimately have "sum_list (map snd (take m calls)) \<le> sum_list (map snd (take n calls))"
      by linarith
    then show "dailySpendUsd (recordCosts (take m calls) st)
              \<le> dailySpendUsd (recordCosts (take n calls) st) \<and>
            hourlyCallCount (recordCosts (take m calls) st)
              \<le> hourlyCallCount (recordCosts (take n calls) st)"
      using mn n by (simp add: pre)
  qed
qed

theorem recordCost_accumulates_witness:
  "dailySpendUsd (recordCosts [(clockAt 1000, 1/4), (clockAt 2000, 1/2)] exampleBudget) = 7/4 \<and>
   hourlyCallCount (recordCosts [(clockAt 1000, 1/4), (clockAt 2000, 1/2)] exampleBudget) = 4"
proof -
  let ?calls = "[(clockAt 1000, 1/4), (clockAt 2000, 1/2 :: rat)]"
  have win: "\<forall>k \<in> fst ` set ?calls. \<not> dailyResetDue k exampleBudget \<and> \<not> hourlyResetDue k exampleBudget"
    by (simp add: dailyResetDue_def hourlyResetDue_def shouldResetHourly_def getCurrentDateUTC_def
        msPerDay_def hourInMs_def exampleBudget_def clockAt_def)
  from recordCost_accumulates [of "clockAt 1000" "1/4" exampleBudget ?calls] win
  have "\<forall>n \<le> length ?calls.
         dailySpendUsd (recordCosts (take n ?calls) exampleBudget)
           = dailySpendUsd exampleBudget + sum_list (map snd (take n ?calls)) \<and>
         hourlyCallCount (recordCosts (take n ?calls) exampleBudget) = hourlyCallCount exampleBudget + n"
    by blast
  from this [rule_format, of 2] show ?thesis
    by (simp add: exampleBudget_def)
qed

lemma dailyResets_none:
  "\<forall>k \<in> fst ` set calls. \<not> dailyResetDue k st \<Longrightarrow> dailyResets config calls st = 0"
proof (induction calls arbitrary: st)
  case Nil
  then show ?case by simp
next
  case (Cons a calls)
  obtain clk c where a: "a = (clk, c)" by (cases a)
  let ?st = "budgetCall config clk c st"
  from Cons.prems a have now: "\<not> dailyResetDue clk st" by simp
  have mk: "lastResetDate ?st = lastResetDate st"
    using maybeReset_daily_keep [OF now] by (simp add: budgetCall_markers)
  have "\<forall>k \<in> fst ` set calls. \<not> dailyResetDue k ?st"
    using Cons.prems by (simp add: resetDue_cong(1) [OF mk])
  from Cons.IH [OF this] show ?case
    using now by (simp add: a)
qed

lemma hourlyResets_none:
  "\<forall>k \<in> fst ` set calls. \<not> hourlyResetDue k st \<Longrightarrow> hourlyResets config calls st = 0"
proof (induction calls arbitrary: st)
  case Nil
  then show ?case by simp
next
  case (Cons a calls)
  obtain clk c where a: "a = (clk, c)" by (cases a)
  let ?st = "budgetCall config clk c st"
  from Cons.prems a have now: "\<not> hourlyResetDue clk st" by simp
  have mk: "lastHourlyReset ?st = lastHourlyReset st"
    using maybeReset_hourly_keep [OF now] by (simp add: budgetCall_markers)
  have "\<forall>k \<in> fst ` set calls. \<not> hourlyResetDue k ?st"
    using Cons.prems by (simp add: resetDue_cong(2) [OF mk])
  from Cons.IH [OF this] show ?case
    using now by (simp add: a)
qed

text \<open>
  Claim C7. Each call compares the clock with the stored marker: the daily spend is
  zeroed exactly when the current UTC date differs from \<open>lastResetDate\<close>, the hourly
  count exactly when an hour or more has passed since \<open>lastHourlyReset\<close>; otherwise
  counter and marker are untouched, so nothing is reset before the boundary. A sequence
  of \<open>checkBudget\<close>/\<open>recordCost\<close> calls that stays inside the window resets nothing,
  and a sequence whose first call is past the boundary, the rest staying inside the
  window that call opens, resets the counter once.
\<close>

theorem window_reset_lazy:
  "(dailyResetDue clk st \<longleftrightarrow> getCurrentDateUTC (dateNow clk) \<noteq> lastResetDate st) \<and>
   (hourlyResetDue clk st \<longleftrightarrow> hourInMs \<le> hourNow clk - lastHourlyReset st) \<and>
   (\<not> dailyResetDue clk st \<longrightarrow>
      dailySpendUsd (maybeResetCounters clk st) = dailySpendUsd st \<and>
      lastResetDate (maybeResetCounters clk st) = lastResetDate st) \<and>
   (dailyResetDue clk st \<longrightarrow>
      dailySpendUsd (maybeResetCounters clk st) = 0 \<and>
      lastResetDate (maybeResetCounters clk st) = getCurrentDateUTC (dateNow clk)) \<and>
   (\<not> hourlyResetDue clk st \<longrightarrow>
      hourlyCallCount (maybeResetCounters clk st) = hourlyCallCount st \<and>
      lastHourlyReset (maybeResetCounters clk st) = lastHourlyReset st) \<and>
   (hourlyResetDue clk st \<longrightarrow>
      hourlyCallCount (maybeResetCounters clk st) = 0 \<and>
      lastHourlyReset (maybeResetCounters clk st) = stampNow clk) \<and>
   ((\<forall>k \<in> fst ` set calls. getCurrentDateUTC (dateNow k) = lastResetDate st) \<longrightarrow>
      dailyResets config calls st = 0) \<and>
   (getCurrentDateUTC (dateNow clk) \<noteq> lastResetDate st \<and>
    (\<forall>k \<in> fst ` set calls. getCurrentDateUTC (dateNow k) = getCurrentDateUTC (dateNow clk)) \<longrightarrow>
      dailyResets config ((clk, c) # calls) st = 1) \<and>
   ((\<forall>k \<in> fst ` set calls. hourNow k - lastHourlyReset st < hourInMs) \<longrightarrow>
      hourlyResets config calls st = 0) \<and>
   (hourInMs \<le> hourNow clk - lastHourlyReset st \<and>
    (\<forall>k \<in> fst ` set calls. hourNow k - stampNow clk < hourInMs) \<longrightarrow>
      hourlyResets config ((clk, c) # calls) st = 1)"
proof (intro conjI)
  show "dailyResetDue clk st \<longleftrightarrow> getCurrentDateUTC (dateNow clk) \<noteq> lastResetDate st"
    by (auto simp: dailyResetDue_def)
  show "hourlyResetDue clk st \<longleftrightarrow> hourInMs \<le> hourNow clk - lastHourlyReset st"
    by (simp add: hourlyResetDue_def shouldResetHourly_def)
  show "\<not> dailyResetDue clk st \<longrightarrow>
      dailySpendUsd (maybeResetCounters clk st) = dailySpendUsd st \<and>
      lastResetDate (maybeResetCounters clk st) = lastResetDate st"
    using maybeReset_daily_keep by blast
  show "dailyResetDue clk st \<longrightarrow>
      dailySpendUsd (maybeResetCounters clk st) = 0 \<and>
      lastResetDate (maybeResetCounters clk st) = getCurrentDateUTC (dateNow clk)"
    using maybeReset_daily_reset by blast
  show "\<not> hourlyResetDue clk st \<longrightarrow>
      hourlyCallCount (maybeResetCounters clk st) = hourlyCallCount st \<and>
      lastHourlyReset (maybeResetCounters clk st) = lastHourlyReset st"
    using maybeReset_hourly_keep by blast
  show "hourlyResetDue clk st \<longrightarrow>
      hourlyCallCount (maybeResetCounters clk st) = 0 \<and>
      lastHourlyReset (maybeResetCounters clk st) = stampNow clk"
    using maybeReset_hourly_reset by blast
  show "(\<forall>k \<in> fst ` set calls. getCurrentDateUTC (dateNow k) = lastResetDate st) \<longrightarrow>
      dailyResets config calls st = 0"
    by (auto intro!: dailyResets_none simp: dailyResetDue_def)
  show "getCurrentDateUTC (dateNow clk) \<noteq> lastResetDate st \<and>
    (\<forall>k \<in> fst ` set calls. getCurrentDateUTC (dateNow k) = getCurrentDateUTC (dateNow clk)) \<longrightarrow>
      dailyResets config ((clk, c) # calls) st = 1"
  proof
    assume h: "getCurrentDateUTC (dateNow clk) \<noteq> lastResetDate st \<and>
      (\<forall>k \<in> fst ` set calls. getCurrentDateUTC (dateNow k) = getCurrentDateUTC (dateNow clk))"
    then have due: "dailyResetDue clk st" by (auto simp: dailyResetDue_def)
    let ?st = "budgetCall config clk c st"
    have "lastResetDate ?st = getCurrentDateUTC (dateNow clk)"
      using maybeReset_daily_reset [OF due] by (simp add: budgetCall_markers)
    then have "\<forall>k \<in> fst ` set calls. \<not> dailyResetDue k ?st"
      using h by (simp add: dailyResetDue_def)
    then have "dailyResets config calls ?st = 0" by (rule dailyResets_none)
    then show "dailyResets config ((clk, c) # calls) st = 1" using due by simp
  qed
  show "(\<forall>k \<in> fst ` set calls. hourNow k - lastHourlyReset st < hourInMs) \<longrightarrow>
      hourlyResets config calls st = 0"
    by (auto intro!: hourlyResets_none simp: hourlyResetDue_def shouldResetHourly_def)
  show "hourInMs \<le> hourNow clk - lastHourlyReset st \<and>
    (\<forall>k \<in> fst ` set calls. hourNow k - stampNow clk < hourInMs) \<longrightarrow>
      hourlyResets config ((clk, c) # calls) st = 1"
  proof
    assume h: "hourInMs \<le> hourNow clk - lastHourlyReset st \<and>
      (\<forall>k \<in> fst ` set calls. hourNow k - stampNow clk < hourInMs)"
    then have due: "hourlyResetDue clk st"
      by (simp add: hourlyResetDue_def shouldResetHourly_def)
    let ?st = "budgetCall config clk c st"
    have "lastHourlyReset ?st = stampNow clk"
      using maybeReset_hourly_reset [OF due] by (simp add: budgetCall_markers)
    then have "\<forall>k \<in> fst ` set calls. \<not> hourlyResetDue k ?st"
      using h by (auto simp: hourlyResetDue_def shouldResetHourly_def)
    then have "hourlyResets config calls ?st = 0" by (rule hourlyResets_none)
    then show "hourlyResets config ((clk, c) # calls) st = 1" using due by simp
  qed
qed

theorem window_reset_lazy_witness:
  "hourlyResets exampleConfig
     [(clockAt 3600000, Record 1), (clockAt 3600500, Check 1), (clockAt 7199999, Record 1)]
     exampleBudget = 1 \<and>
   dailyResets exampleConfig
     [(clockAt 86400000, Record 1), (clockAt 86400001, Check 1)] exampleBudget = 1 \<and>
   dailyResets exampleConfig
     [(clockAt 0, Record 1), (clockAt 86399999, Check 1)] exampleBudget = 0"
proof -
  have h: "hourInMs \<le> hourNow (clockAt 3600000) - lastHourlyReset exampleBudget \<and>
    (\<forall>k \<in> fst ` set [(clockAt 3600500, Check 1), (clockAt 7199999, Record 1)].
       hourNow k - stampNow (clockAt 3600000) < hourInMs)"
    by (simp add: hourInMs_def exampleBudget_def clockAt_def)
  have d: "getCurrentDateUTC (dateNow (clockAt 86400000)) \<noteq> lastResetDate exampleBudget \<and>
    (\<forall>k \<in> fst ` set [(clockAt 86400001, Check 1)].
       getCurrentDateUTC (dateNow k) = getCurrentDateUTC (dateNow (clockAt 86400000)))"
    by (simp add: getCurrentDateUTC_def msPerDay_def exampleBudget_def clockAt_def)
  have n: "\<forall>k \<in> fst ` set [(clockAt 0, Record 1), (clockAt 86399999, Check 1)].
       getCurrentDateUTC (dateNow k) = lastResetDate exampleBudget"
    by (simp add: getCurrentDateUTC_def msPerDay_def exampleBudget_def clockAt_def)
  from window_reset_lazy [of "clockAt 3600000" exampleBudget
        "[(clockAt 3600500, Check 1), (clockAt 7199999, Record 1)]" exampleConfig "Record 1"]
  have "hourInMs \<le> hourNow (clockAt 3600000) - lastHourlyReset exampleBudget \<and>
    (\<forall>k \<in> fst ` set [(clockAt 3600500, Check 1), (clockAt 7199999, Record 1)].
       hourNow k - stampNow (clockAt 3600000) < hourInMs) \<longrightarrow>
    hourlyResets exampleConfig ((clockAt 3600000, Record 1) #
       [(clockAt 3600500, Check 1), (clockAt 7199999, Record 1)]) exampleBudget = 1"
    by (elim conjE)
  from this h have a: "hourlyResets exampleConfig ((clockAt 3600000, Record 1) #
       [(clockAt 3600500, Check 1), (clockAt 7199999, Record 1)]) exampleBudget = 1" by (rule mp)
  from window_reset_lazy [of "clockAt 86400000" exampleBudget
        "[(clockAt 86400001, Check 1)]" exampleConfig "Record 1"]
  have "getCurrentDateUTC (dateNow (clockAt 86400000)) \<noteq> lastResetDate exampleBudget \<and>
    (\<forall>k \<in> fst ` set [(clockAt 86400001, Check 1)].
       getCurrentDateUTC (dateNow k) = getCurrentDateUTC (dateNow (clockAt 86400000))) \<longrightarrow>
    dailyResets exampleConfig ((clockAt 86400000, Record 1) # [(clockAt 86400001, Check 1)])
      exampleBudget = 1"
    by (elim conjE)
  from this d have b: "dailyResets exampleConfig ((clockAt 86400000, Record 1) #
      [(clockAt 86400001, Check 1)]) exampleBudget = 1" by (rule mp)
  from window_reset_lazy [of "clockAt 0" exampleBudget
        "[(clockAt 0, Record 1), (clockAt 86399999, Check 1)]" exampleConfig "Record 1"]
  have "(\<forall>k \<in> fst ` set [(clockAt 0, Record 1), (clockAt 86399999, Check 1)].
       getCurrentDateUTC (dateNow k) = lastResetDate exampleBudget) \<longrightarrow>
    dailyResets exampleConfig [(clockAt 0, Record 1), (clockAt 86399999, Check 1)] exampleBudget = 0"
    by (elim conjE)
  from this n have c: "dailyResets exampleConfig [(clockAt 0, Record 1), (clockAt 86399999, Check 1)]
      exampleBudget = 0" by (rule mp)
  from a b c show ?thesis by (intro conjI)
qed

lemma getRecentRuns_nonneg:
  "0 \<le> limit \<Longrightarrow> getRecentRuns limit runs = take (nat (min limit 50)) runs"
  by (simp add: getRecentRuns_def slice0_def Let_def min_def)

text \<open>
  Claim C10. An answer of the list tool holds the summaries of the first
  \<open>min(limit, 50)\<close> records of the store (fewer if the store is shorter), in store
  order, so never more than \<open>min(limit, 50)\<close>; the same holds for \<open>getRecentRuns\<close>
  with any non-negative limit. \<open>addRun\<close> puts the new record first and keeps the
  first \<open>MAX_RUNS = 100\<close>.
\<close>

theorem runs_list_cap:
  "(relay_runs_list base limitArg runs = Some resp \<longrightarrow>
      (let limit = (case limitArg of None \<Rightarrow> 10 | Some l \<Rightarrow> l) in
       listedRuns resp = map (summarise base) (take (nat (min limit 50)) runs) \<and>
       int (length (listedRuns resp)) \<le> min limit 50 \<and>
       total resp = length (listedRuns resp))) \<and>
   (0 \<le> limit \<longrightarrow>
      getRecentRuns limit runs = take (nat (min limit 50)) runs \<and>
      int (length (getRecentRuns limit runs)) \<le> min limit 50) \<and>
   addRun run runs = take MAX_RUNS (run # runs) \<and>
   length (addRun run runs) \<le> MAX_RUNS"
proof (intro conjI impI)
  assume ok: "relay_runs_list base limitArg runs = Some resp"
  define limit where "limit = (case limitArg of None \<Rightarrow> 10 | Some l \<Rightarrow> l)"
  from ok have schema: "relayRunsListSchema limitArg"
    and resp: "resp = relayRunsList base limitArg runs"
    by (auto simp: relay_runs_list_def split: if_splits)
  from schema have range: "1 \<le> limit" "limit \<le> 50"
    by (auto simp: relayRunsListSchema_def limit_def split: option.splits)
  have eff: "(case limitArg of None \<Rightarrow> 10 | Some l \<Rightarrow> if l = 0 then 10 else l) = limit"
    using range by (auto simp: limit_def split: option.splits)
  have "listedRuns resp = map (summarise base) (getRecentRuns limit runs)"
    and tot: "total resp = length (listedRuns resp)"
    by (simp_all add: resp relayRunsList_def Let_def eff)
  then have l: "listedRuns resp = map (summarise base) (take (nat (min limit 50)) runs)"
    using range by (simp add: getRecentRuns_nonneg)
  have "int (length (listedRuns resp)) \<le> min limit 50"
    using range by (auto simp: l min_def)
  with l tot show "let limit = (case limitArg of None \<Rightarrow> 10 | Some l \<Rightarrow> l) in
       listedRuns resp = map (summarise base) (take (nat (min limit 50)) runs) \<and>
       int (length (listedRuns resp)) \<le> min limit 50 \<and>
       total resp = length (listedRuns resp)"
    by (simp add: limit_def Let_def)
next
  assume "0 \<le> limit"
  then show "getRecentRuns limit runs = take (nat (min limit 50)) runs"
    by (rule getRecentRuns_nonneg)
  with \<open>0 \<le> limit\<close> show "int (length (getRecentRuns limit runs)) \<le> min limit 50"
    by (auto simp: min_def)
next
  show "addRun run runs = take MAX_RUNS (run # runs)"
    by (simp add: addRun_def Let_def)
  then show "length (addRun run runs) \<le> MAX_RUNS"
    by simp
qed

theorem runs_list_cap_witness:
  "map sumRunId (listedRuns (the (relay_runs_list ''u''
      (Some 2) (addRun (exampleRun ''c'') [exampleRun ''b'', exampleRun ''a''])))) = [''c'', ''b'']"
proof -
  let ?runs = "addRun (exampleRun ''c'') [exampleRun ''b'', exampleRun ''a'']"
  have ok: "relay_runs_list ''u'' (Some 2) ?runs = Some (relayRunsList ''u'' (Some 2) ?runs)"
    by (simp add: relay_runs_list_def relayRunsListSchema_def)
  have "listedRuns (relayRunsList ''u'' (Some 2) ?runs)
      = map (summarise ''u'') (take (nat (min 2 50)) ?runs)"
    using runs_list_cap [of "''u''" "Some 2" ?runs "relayRunsList ''u'' (Some 2) ?runs"] ok
    by (simp add: Let_def)
  then have "map sumRunId (listedRuns (relayRunsList ''u'' (Some 2) ?runs)) = [''c'', ''b'']"
    by (simp add: addRun_def MAX_RUNS_def Let_def summarise_def exampleRun_def)
  then show ?thesis
    unfolding ok option.sel .
qed

section \<open>Properties of the two topological sorts\<close>

lemma depsBefore_Nil: "depsBefore G []"
  by (simp add: depsBefore_def)

lemma depsBefore_snoc:
  assumes "depsBefore G xs" and "G `` {n} \<subseteq> set xs"
  shows "depsBefore G (xs @ [n])"
  unfolding depsBefore_def
proof (intro allI impI)
  fix pre m post
  assume eq: "xs @ [n] = pre @ m # post"
  show "G `` {m} \<subseteq> set pre"
  proof (cases post rule: rev_cases)
    case Nil
    with eq have "pre = xs" "m = n" by auto
    with assms(2) show ?thesis by simp
  next
    case (snoc post' l)
    with eq have "xs = pre @ m # post'" by (metis append.assoc append_Cons butlast_snoc)
    with assms(1) show ?thesis by (auto simp: depsBefore_def)
  qed
qed

lemma position_less_length: "x \<in> set xs \<Longrightarrow> position x xs < length xs"
  unfolding position_def
  by (induction xs) auto

lemma position_append_in: "x \<in> set xs \<Longrightarrow> position x (xs @ ys) = position x xs"
  unfolding position_def by (induction xs) auto

lemma position_append_notin:
  "x \<notin> set xs \<Longrightarrow> position x (xs @ ys) = length xs + position x ys"
  unfolding position_def by (induction xs) auto

lemma position_split:
  "x \<notin> set pre \<Longrightarrow> position x (pre @ x # post) = length pre"
  by (simp add: position_append_notin) (simp add: position_def)

lemma depsBefore_edge:
  assumes db: "depsBefore G xs" and a: "a \<in> set xs" and e: "(a, b) \<in> G"
  shows "b \<in> set xs \<and> position b xs < position a xs"
proof -
  from a obtain pre post where xs: "xs = pre @ a # post" and na: "a \<notin> set pre"
    by (auto dest: split_list_first)
  from db xs e have b: "b \<in> set pre" by (auto simp: depsBefore_def)
  have "position a xs = length pre" using na by (simp add: xs position_split)
  moreover have "position b xs = position b pre" using b by (simp add: xs position_append_in)
  moreover have "position b pre < length pre" using b by (rule position_less_length)
  ultimately show ?thesis using b xs by simp
qed

lemma depsBefore_path:
  assumes db: "depsBefore G xs" and p: "(a, b) \<in> G\<^sup>+" and a: "a \<in> set xs"
  shows "b \<in> set xs \<and> position b xs < position a xs"
  using p a
proof (induction rule: trancl_induct)
  case (base y)
  then show ?case using depsBefore_edge [OF db] by blast
next
  case (step y z)
  then have y: "y \<in> set xs" "position y xs < position a xs" by auto
  from depsBefore_edge [OF db y(1) step.hyps(2)] y(2) show ?case by auto
qed

lemma depGraph_image: "findDepends steps n = Some ds \<Longrightarrow> depGraph steps `` {n} = set ds"
  by (auto simp: depGraph_def)

lemma depGraph_image_None: "findDepends steps n = None \<Longrightarrow> depGraph steps `` {n} = {}"
  by (auto simp: depGraph_def)

lemma sortInv_markDone:
  assumes inv: "sortInv steps st" and n: "n \<in> visiting_v st"
    and deps: "depGraph steps `` {n} \<subseteq> visited_v st"
  shows "sortInv steps (markDone n st)"
proof -
  from inv n have nv: "n \<notin> visited_v st" by (auto simp: sortInv_def)
  from inv deps have "depGraph steps `` {n} \<subseteq> set (order_v st)" by (simp add: sortInv_def)
  with inv have "depsBefore (depGraph steps) (order_v st @ [n])"
    by (intro depsBefore_snoc) (auto simp: sortInv_def)
  with inv nv show ?thesis
    by (auto simp: sortInv_def markDone_def)
qed

lemma validate_success:
  "sortInv steps st \<Longrightarrow> visit_validate steps n st = (True, st') \<Longrightarrow>
     sortInv steps st' \<and> visiting_v st' = visiting_v st \<and> cycleStep_v st' = cycleStep_v st \<and>
     n \<in> visited_v st' \<and>
     (\<exists>extra. order_v st' = order_v st @ extra \<and> set extra \<subseteq> (depGraph steps)\<^sup>* `` {n})"
  "sortInv steps st \<Longrightarrow> visitDeps_validate steps ds st = (True, st') \<Longrightarrow>
     sortInv steps st' \<and> visiting_v st' = visiting_v st \<and> cycleStep_v st' = cycleStep_v st \<and>
     set ds \<subseteq> visited_v st' \<and>
     (\<exists>extra. order_v st' = order_v st @ extra \<and> set extra \<subseteq> (depGraph steps)\<^sup>* `` set ds)"
proof (induction steps n st and steps ds st arbitrary: st' and st'
    rule: visit_validate_visitDeps_validate.induct)
  case (1 steps stepName st)
  let ?G = "depGraph steps"
  let ?st1 = "st\<lparr>visiting_v := insert stepName (visiting_v st)\<rparr>"
  show ?case
  proof (cases "stepName \<in> visited_v st")
    case True
    with "1.prems" show ?thesis by (simp add: visit_validate.simps)
  next
    case nv: False
    with "1.prems" have nvi: "stepName \<notin> visiting_v st"
      by (auto simp: visit_validate.simps split: if_splits)
    from "1.prems"(1) nv have inv1: "sortInv steps ?st1"
      by (auto simp: sortInv_def)
    show ?thesis
    proof (cases "findDepends steps stepName")
      case None
      with nv nvi "1.prems" have st': "st' = markDone stepName ?st1"
        by (simp add: visit_validate.simps)
      have "sortInv steps st'" unfolding st'
        by (rule sortInv_markDone [OF inv1]) (simp_all add: depGraph_image_None [OF None])
      moreover have "order_v st' = order_v st @ [stepName]"
        by (simp add: st' markDone_def)
      ultimately show ?thesis using nvi
        by (auto simp: st' markDone_def)
    next
      case (Some deps)
      with nv nvi "1.prems" obtain st2 where
        run: "visitDeps_validate steps deps ?st1 = (True, st2)" and
        st': "st' = markDone stepName st2"
        by (auto simp: visit_validate.simps split: prod.splits if_splits)
      from "1.IH" [OF nv nvi Some inv1 run]
      have inv2: "sortInv steps st2"
        and vis2: "visiting_v st2 = insert stepName (visiting_v st)"
        and cyc2: "cycleStep_v st2 = cycleStep_v st"
        and deps2: "set deps \<subseteq> visited_v st2"
        and ex: "\<exists>extra. order_v st2 = order_v st @ extra \<and> set extra \<subseteq> ?G\<^sup>* `` set deps"
        by simp_all
      from ex obtain extra where
        ord2: "order_v st2 = order_v st @ extra" and reach: "set extra \<subseteq> ?G\<^sup>* `` set deps"
        by blast
      have "sortInv steps st'" unfolding st'
        by (rule sortInv_markDone [OF inv2]) (simp_all add: vis2 depGraph_image [OF Some] deps2)
      moreover have "order_v st' = order_v st @ (extra @ [stepName])"
        by (simp add: st' markDone_def ord2)
      moreover have "set (extra @ [stepName]) \<subseteq> ?G\<^sup>* `` {stepName}"
      proof -
        have "?G\<^sup>* `` set deps \<subseteq> ?G\<^sup>* `` {stepName}"
        proof
          fix x assume "x \<in> ?G\<^sup>* `` set deps"
          then obtain d where d: "d \<in> set deps" "(d, x) \<in> ?G\<^sup>*" by auto
          from d(1) Some have "(stepName, d) \<in> ?G" by (auto simp: depGraph_def)
          with d(2) show "x \<in> ?G\<^sup>* `` {stepName}" by (auto intro: converse_rtrancl_into_rtrancl)
        qed
        with reach show ?thesis by auto
      qed
      ultimately show ?thesis using nvi vis2 cyc2
        by (auto simp: st' markDone_def)
    qed
  qed
next
  case (2 steps st)
  then show ?case by simp
next
  case (3 steps dep deps st)
  let ?G = "depGraph steps"
  from "3.prems" obtain st1 where
    a: "visit_validate steps dep st = (True, st1)" and
    b: "visitDeps_validate steps deps st1 = (True, st')"
    by (auto split: prod.splits if_splits)
  from "3.IH"(1) [OF "3.prems"(1) a]
  have inv1: "sortInv steps st1" and vis1: "visiting_v st1 = visiting_v st"
    and cyc1: "cycleStep_v st1 = cycleStep_v st" and d1: "dep \<in> visited_v st1"
    and ex1: "\<exists>extra. order_v st1 = order_v st @ extra \<and> set extra \<subseteq> ?G\<^sup>* `` {dep}"
    by simp_all
  from "3.IH"(2) [OF a [symmetric] TrueI inv1 b]
  have inv': "sortInv steps st'" and vis': "visiting_v st' = visiting_v st1"
    and cyc': "cycleStep_v st' = cycleStep_v st1" and d': "set deps \<subseteq> visited_v st'"
    and ex': "\<exists>extra. order_v st' = order_v st1 @ extra \<and> set extra \<subseteq> ?G\<^sup>* `` set deps"
    by simp_all
  from ex1 obtain e1 where e1: "order_v st1 = order_v st @ e1" "set e1 \<subseteq> ?G\<^sup>* `` {dep}"
    by blast
  from ex' obtain e2 where e2: "order_v st' = order_v st1 @ e2" "set e2 \<subseteq> ?G\<^sup>* `` set deps"
    by blast
  have "dep \<in> visited_v st'"
    using d1 inv1 inv' e2(1) by (auto simp: sortInv_def)
  moreover have "order_v st' = order_v st @ (e1 @ e2)" by (simp add: e1 e2)
  moreover have "set (e1 @ e2) \<subseteq> ?G\<^sup>* `` set (dep # deps)"
    using e1(2) e2(2) by auto
  ultimately show ?case using inv' vis' vis1 cyc' cyc1 d'
    by (intro conjI exI [of _ "e1 @ e2"]) simp_all
qed

lemma validate_failure:
  "sortInv steps st \<Longrightarrow> \<forall>v \<in> visiting_v st. (v, n) \<in> (depGraph steps)\<^sup>+ \<Longrightarrow>
     visit_validate steps n st = (False, st') \<Longrightarrow>
     \<exists>x. cycleStep_v st' = Some x \<and> (x, x) \<in> (depGraph steps)\<^sup>+"
  "sortInv steps st \<Longrightarrow> \<forall>d \<in> set ds. \<forall>v \<in> visiting_v st. (v, d) \<in> (depGraph steps)\<^sup>+ \<Longrightarrow>
     visitDeps_validate steps ds st = (False, st') \<Longrightarrow>
     \<exists>x. cycleStep_v st' = Some x \<and> (x, x) \<in> (depGraph steps)\<^sup>+"
proof (induction steps n st and steps ds st arbitrary: st' and st'
    rule: visit_validate_visitDeps_validate.induct)
  case (1 steps stepName st)
  let ?G = "depGraph steps"
  let ?st1 = "st\<lparr>visiting_v := insert stepName (visiting_v st)\<rparr>"
  from "1.prems"(3) have nv: "stepName \<notin> visited_v st"
    by (auto simp: visit_validate.simps split: if_splits)
  show ?case
  proof (cases "stepName \<in> visiting_v st")
    case True
    with nv "1.prems"(3) have "cycleStep_v st' = Some stepName"
      by (auto simp: visit_validate.simps)
    moreover from True "1.prems"(2) have "(stepName, stepName) \<in> ?G\<^sup>+" by blast
    ultimately show ?thesis by blast
  next
    case nvi: False
    with nv "1.prems"(3) obtain deps where
      Some: "findDepends steps stepName = Some deps" and
      run: "visitDeps_validate steps deps ?st1 = (False, st')"
      by (auto simp: visit_validate.simps split: option.splits prod.splits if_splits)
    from "1.prems"(1) nv have inv1: "sortInv steps ?st1"
      by (auto simp: sortInv_def)
    have "\<forall>d \<in> set deps. \<forall>v \<in> visiting_v ?st1. (v, d) \<in> ?G\<^sup>+"
    proof (intro ballI)
      fix d v assume d: "d \<in> set deps" and v: "v \<in> visiting_v ?st1"
      from d Some have e: "(stepName, d) \<in> ?G" by (auto simp: depGraph_def)
      show "(v, d) \<in> ?G\<^sup>+"
      proof (cases "v = stepName")
        case True
        with e show ?thesis by auto
      next
        case False
        with v "1.prems"(2) have "(v, stepName) \<in> ?G\<^sup>+" by auto
        with e show ?thesis by (auto intro: trancl_into_trancl)
      qed
    qed
    from "1.IH" [OF nv nvi Some inv1 this run] show ?thesis .
  qed
next
  case (2 steps st)
  then show ?case by simp
next
  case (3 steps dep deps st)
  let ?G = "depGraph steps"
  show ?case
  proof (cases "visit_validate steps dep st")
    case (Pair ok st1)
    show ?thesis
    proof (cases ok)
      case False
      with Pair "3.prems"(3) have "visit_validate steps dep st = (False, st')" by simp
      from "3.IH"(1) [OF "3.prems"(1) _ this] "3.prems"(2) show ?thesis by simp
    next
      case True
      with Pair have a: "visit_validate steps dep st = (True, st1)" by simp
      with "3.prems"(3) have b: "visitDeps_validate steps deps st1 = (False, st')" by simp
      from validate_success(1) [OF "3.prems"(1) a]
      have inv1: "sortInv steps st1" and vis1: "visiting_v st1 = visiting_v st" by simp_all
      from "3.IH"(2) [OF a [symmetric] TrueI inv1 _ b] "3.prems"(2) vis1
      show ?thesis by simp
    qed
  qed
qed

lemma visitEach_validate_eq:
  "visitEach_validate steps rest st =
     (case visitDeps_validate steps (map name rest) st of
        (ok, st') \<Rightarrow>
          if ok then \<lparr>order = order_v st', hasCycle = False, cycleStep = None\<rparr>
          else \<lparr>order = [], hasCycle = True, cycleStep = cycleStep_v st'\<rparr>)"
  by (induction rest arbitrary: st) (auto split: prod.splits)

lemma sortInv_initial: "sortInv steps initialValidateState"
  by (simp add: sortInv_def initialValidateState_def depsBefore_def)

lemma depGraph_source_listed: "(a, b) \<in> depGraph steps \<Longrightarrow> a \<in> name ` set steps"
  by (auto simp: depGraph_def dest: findDepends_listed)

lemma topologicalSort_validate_cycle:
  assumes "hasCycle (topologicalSort_validate steps)"
  shows "order (topologicalSort_validate steps) = [] \<and>
         (\<exists>x. cycleStep (topologicalSort_validate steps) = Some x \<and> (x, x) \<in> (depGraph steps)\<^sup>+)"
proof -
  obtain ok st' where r: "visitDeps_validate steps (map name steps) initialValidateState = (ok, st')"
    by (cases "visitDeps_validate steps (map name steps) initialValidateState")
  with assms have ok: "\<not> ok"
    by (auto simp: topologicalSort_validate_def visitEach_validate_eq initialValidateState_def
        split: if_splits)
  with r have res: "topologicalSort_validate steps
      = \<lparr>order = [], hasCycle = True, cycleStep = cycleStep_v st'\<rparr>"
    by (simp add: topologicalSort_validate_def visitEach_validate_eq initialValidateState_def)
  from r ok have "visitDeps_validate steps (map name steps) initialValidateState = (False, st')"
    by simp
  from validate_failure(2) [OF sortInv_initial _ this]
  have "\<exists>x. cycleStep_v st' = Some x \<and> (x, x) \<in> (depGraph steps)\<^sup>+"
    by (simp add: initialValidateState_def)
  with res show ?thesis by simp
qed

lemma topologicalSort_validate_ok:
  assumes "\<not> hasCycle (topologicalSort_validate steps)"
  shows "cycleStep (topologicalSort_validate steps) = None \<and>
         distinct (order (topologicalSort_validate steps)) \<and>
         name ` set steps \<subseteq> set (order (topologicalSort_validate steps)) \<and>
         set (order (topologicalSort_validate steps)) \<subseteq> (depGraph steps)\<^sup>* `` (name ` set steps) \<and>
         depsBefore (depGraph steps) (order (topologicalSort_validate steps)) \<and>
         acyclic (depGraph steps)"
proof -
  let ?G = "depGraph steps"
  obtain ok st' where r: "visitDeps_validate steps (map name steps) initialValidateState = (ok, st')"
    by (cases "visitDeps_validate steps (map name steps) initialValidateState")
  with assms have ok: "ok"
    by (auto simp: topologicalSort_validate_def visitEach_validate_eq initialValidateState_def
        split: if_splits)
  with r have res: "topologicalSort_validate steps
      = \<lparr>order = order_v st', hasCycle = False, cycleStep = None\<rparr>"
    by (simp add: topologicalSort_validate_def visitEach_validate_eq initialValidateState_def)
  from r ok have "visitDeps_validate steps (map name steps) initialValidateState = (True, st')"
    by simp
  from validate_success(2) [OF sortInv_initial this]
  have inv: "sortInv steps st'" and all: "name ` set steps \<subseteq> visited_v st'"
    and reach: "set (order_v st') \<subseteq> ?G\<^sup>* `` (name ` set steps)"
    by (auto simp: initialValidateState_def)
  have "acyclic ?G"
  proof (rule acyclicI, intro allI notI)
    fix x assume c: "(x, x) \<in> ?G\<^sup>+"
    then obtain y where "(x, y) \<in> ?G" by (auto dest: tranclD)
    then have "x \<in> name ` set steps" by (rule depGraph_source_listed)
    with all inv have "x \<in> set (order_v st')" by (auto simp: sortInv_def)
    with depsBefore_path [OF _ c, of "order_v st'"] inv
    show False by (auto simp: sortInv_def)
  qed
  with inv all reach res show ?thesis by (auto simp: sortInv_def)
qed

lemma topologicalSort_validate_iff:
  "hasCycle (topologicalSort_validate steps) \<longleftrightarrow> \<not> acyclic (depGraph steps)"
proof
  assume "hasCycle (topologicalSort_validate steps)"
  from topologicalSort_validate_cycle [OF this] show "\<not> acyclic (depGraph steps)"
    by (auto simp: acyclic_def)
next
  assume "\<not> acyclic (depGraph steps)"
  with topologicalSort_validate_ok [of steps] show "hasCycle (topologicalSort_validate steps)"
    by blast
qed

lemma map_of_rev_distinct: "distinct (map fst xs) \<Longrightarrow> map_of (rev xs) = map_of xs"
proof (induction xs)
  case Nil
  then show ?case by simp
next
  case (Cons x xs)
  then have ih: "map_of (rev xs) = map_of xs" and nin: "fst x \<notin> fst ` set xs" by auto
  from nin have none: "map_of xs (fst x) = None" by (simp add: map_of_eq_None_iff)
  show ?case
  proof
    fix k
    show "map_of (rev (x # xs)) k = map_of (x # xs) k"
      using none by (cases x) (auto simp: ih map_add_def split: option.splits)
  qed
qed

lemma map_of_find: "map_of (map (\<lambda>s. (name s, s)) steps) n = find (\<lambda>s. name s = n) steps"
  by (induction steps) auto

lemma stepMap_find: "uniqueNames steps \<Longrightarrow> stepMap steps n = find (\<lambda>s. name s = n) steps"
proof -
  assume "uniqueNames steps"
  then have "distinct (map fst (map (\<lambda>s. (name s, s)) steps))"
    by (simp add: uniqueNames_def comp_def)
  from map_of_rev_distinct [OF this] show ?thesis
    by (simp add: stepMap_def map_of_find)
qed

lemma stepMap_Some: "stepMap steps n = Some s \<Longrightarrow> name s = n \<and> s \<in> set steps"
  unfolding stepMap_def by (auto dest!: map_of_SomeD)

lemma findDepends_stepMap:
  "uniqueNames steps \<Longrightarrow>
   findDepends steps n = (case stepMap steps n of None \<Rightarrow> None | Some s \<Rightarrow> depends s)"
  by (simp add: findDepends_def stepMap_find)

lemma simulation:
  "uniqueNames steps \<Longrightarrow>
     (case visit steps n st of
        Inr st' \<Rightarrow> visit_validate steps n (abstractState c st) = (True, abstractState c st')
      | Inl (CircularDependency x) \<Rightarrow>
          (\<exists>st''. visit_validate steps n (abstractState c st) = (False, st'') \<and>
                  cycleStep_v st'' = Some x)
      | Inl (StepNotFound x) \<Rightarrow> True)"
  "uniqueNames steps \<Longrightarrow>
     (case visitDeps steps ds st of
        Inr st' \<Rightarrow> visitDeps_validate steps ds (abstractState c st) = (True, abstractState c st')
      | Inl (CircularDependency x) \<Rightarrow>
          (\<exists>st''. visitDeps_validate steps ds (abstractState c st) = (False, st'') \<and>
                  cycleStep_v st'' = Some x)
      | Inl (StepNotFound x) \<Rightarrow> True)"
proof (induction steps n st and steps ds st rule: visit_visitDeps.induct)
  case (1 steps stepName st)
  let ?st1 = "st\<lparr>visiting := insert stepName (visiting st)\<rparr>"
  have abs1: "abstractState c ?st1
      = (abstractState c st)\<lparr>visiting_v := insert stepName (visiting_v (abstractState c st))\<rparr>"
    by (simp add: abstractState_def)
  show ?case
  proof (cases "stepName \<in> visited st \<or> stepName \<in> visiting st")
    case True
    then show ?thesis
      by (auto simp: visit.simps visit_validate.simps abstractState_def)
  next
    case False
    then have nv: "stepName \<notin> visited st" and nvi: "stepName \<notin> visiting st" by auto
    show ?thesis
    proof (cases "stepMap steps stepName")
      case None
      with nv nvi show ?thesis by (simp add: visit.simps)
    next
      case (Some step)
      then have nm: "name step = stepName" by (simp add: stepMap_Some)
      have fd: "findDepends steps stepName = depends step"
        using "1.prems" Some by (simp add: findDepends_stepMap)
      note ih = "1.IH" [OF nv nvi Some "1.prems"]
      have unfold_v: "visit_validate steps stepName (abstractState c st) =
          (case depends step of
             None \<Rightarrow> (True, markDone stepName (abstractState c ?st1))
           | Some deps \<Rightarrow>
               (case visitDeps_validate steps deps (abstractState c ?st1) of
                  (ok, st2) \<Rightarrow> if ok then (True, markDone stepName st2) else (False, st2)))"
        using nv nvi by (subst visit_validate.simps) (simp add: fd abstractState_def split: option.splits)
      have unfold_r: "visit steps stepName st =
          (case visitDeps steps (dependsOrEmpty step) ?st1 of
             Inl e \<Rightarrow> Inl e
           | Inr st2 \<Rightarrow>
               Inr (st2\<lparr>visiting := visiting st2 - {stepName},
                        visited := insert stepName (visited st2),
                        sortedSteps := sortedSteps st2 @ [step]\<rparr>))"
        using nv nvi Some by (subst visit.simps) simp
      have fin_eq: "markDone stepName (abstractState c st2)
          = abstractState c (st2\<lparr>visiting := visiting st2 - {stepName},
                        visited := insert stepName (visited st2),
                        sortedSteps := sortedSteps st2 @ [step]\<rparr>)" for st2
        by (simp add: markDone_def abstractState_def nm)
      show ?thesis
      proof (cases "depends step")
        case None
        then show ?thesis
          by (simp add: unfold_v unfold_r dependsOrEmpty_def fin_eq)
      next
        case (Some deps)
        then have de: "dependsOrEmpty step = deps" by (simp add: dependsOrEmpty_def)
        show ?thesis
        proof (cases "visitDeps steps deps ?st1")
          case (Inr st2)
          with ih have "visitDeps_validate steps deps (abstractState c ?st1)
              = (True, abstractState c st2)" by (simp add: de)
          with Inr show ?thesis
            by (simp add: unfold_v unfold_r Some de fin_eq)
        next
          case (Inl e)
          show ?thesis
          proof (cases e)
            case (CircularDependency x)
            with Inl ih obtain st'' where
              "visitDeps_validate steps deps (abstractState c ?st1) = (False, st'')"
              "cycleStep_v st'' = Some x" by (auto simp: de)
            with Inl CircularDependency show ?thesis
              by (simp add: unfold_v unfold_r Some de)
          next
            case (StepNotFound x)
            with Inl show ?thesis by (simp add: unfold_r de)
          qed
        qed
      qed
    qed
  qed
next
  case (2 steps st)
  then show ?case by simp
next
  case (3 steps dep deps st)
  show ?case
  proof (cases "visit steps dep st")
    case (Inl e)
    with "3.IH"(1) [OF "3.prems"] show ?thesis
      by (cases e) auto
  next
    case (Inr st1)
    with "3.IH"(1) [OF "3.prems"]
    have a: "visit_validate steps dep (abstractState c st) = (True, abstractState c st1)" by simp
    from "3.IH"(2) [OF Inr "3.prems"] Inr a show ?thesis
      by (auto split: sum.splits SortError.splits)
  qed
qed

lemma visitEach_eq: "visitEach steps rest st = visitDeps steps (map name rest) st"
  by (induction rest arbitrary: st) (auto split: sum.splits)

lemma visitDeps_validate_append:
  "visitDeps_validate steps (xs @ ys) st =
     (case visitDeps_validate steps xs st of
        (ok, st1) \<Rightarrow> if ok then visitDeps_validate steps ys st1 else (False, st1))"
  by (induction xs arbitrary: st) (auto split: prod.splits)

lemma notFound_unknown:
  "visit steps n st = Inl (StepNotFound x) \<Longrightarrow>
     x \<notin> name ` set steps \<and> (x = n \<or> (\<exists>s \<in> set steps. x \<in> set (dependsOrEmpty s)))"
  "visitDeps steps ds st = Inl (StepNotFound x) \<Longrightarrow>
     x \<notin> name ` set steps \<and> (x \<in> set ds \<or> (\<exists>s \<in> set steps. x \<in> set (dependsOrEmpty s)))"
proof (induction steps n st and steps ds st rule: visit_visitDeps.induct)
  case (1 steps stepName st)
  from "1.prems" have nv: "stepName \<notin> visited st" and nvi: "stepName \<notin> visiting st"
    by (auto simp: visit.simps split: if_splits)
  show ?case
  proof (cases "stepMap steps stepName")
    case None
    with nv nvi "1.prems" have "x = stepName" by (simp add: visit.simps)
    moreover from None have "stepName \<notin> name ` set steps"
      by (force simp: stepMap_def map_of_eq_None_iff)
    ultimately show ?thesis by simp
  next
    case (Some step)
    with nv nvi "1.prems" have
      "visitDeps steps (dependsOrEmpty step) (st\<lparr>visiting := insert stepName (visiting st)\<rparr>)
         = Inl (StepNotFound x)"
      by (auto simp: visit.simps split: sum.splits)
    from "1.IH" [OF nv nvi Some this] stepMap_Some [OF Some] show ?thesis by auto
  qed
next
  case (2 steps st)
  then show ?case by simp
next
  case (3 steps dep deps st)
  show ?case
  proof (cases "visit steps dep st")
    case (Inl e)
    with "3.prems" have "visit steps dep st = Inl (StepNotFound x)" by simp
    from "3.IH"(1) [OF this] show ?thesis by auto
  next
    case (Inr st1)
    with "3.prems" have "visitDeps steps deps st1 = Inl (StepNotFound x)" by simp
    from "3.IH"(2) [OF Inr this] show ?thesis by auto
  qed
qed

lemma sorted_from_steps:
  "visit steps n st = Inr st' \<Longrightarrow> set (sortedSteps st') \<subseteq> set (sortedSteps st) \<union> set steps"
  "visitDeps steps ds st = Inr st' \<Longrightarrow> set (sortedSteps st') \<subseteq> set (sortedSteps st) \<union> set steps"
proof (induction steps n st and steps ds st arbitrary: st' and st' rule: visit_visitDeps.induct)
  case (1 steps stepName st)
  show ?case
  proof (cases "stepName \<in> visited st \<or> stepName \<in> visiting st")
    case True
    with "1.prems" show ?thesis by (auto simp: visit.simps split: if_splits)
  next
    case False
    with "1.prems" obtain step st2 where
      step: "stepMap steps stepName = Some step" and
      deps: "visitDeps steps (dependsOrEmpty step)
               (st\<lparr>visiting := insert stepName (visiting st)\<rparr>) = Inr st2" and
      st': "sortedSteps st' = sortedSteps st2 @ [step]"
      by (auto simp: visit.simps split: option.splits sum.splits)
    from "1.IH" [OF _ _ step deps] False stepMap_Some [OF step] show ?thesis
      by (auto simp: st')
  qed
next
  case (2 steps st)
  then show ?case by simp
next
  case (3 steps dep deps st)
  from "3.prems" obtain st1 where
    a: "visit steps dep st = Inr st1" and b: "visitDeps steps deps st1 = Inr st'"
    by (auto split: sum.splits)
  from "3.IH"(1) [OF a] "3.IH"(2) [OF a b] show ?case by auto
qed

lemma abstract_initial: "abstractState None initialSortState = initialValidateState"
  by (simp add: abstractState_def initialSortState_def initialValidateState_def)

lemma topologicalSort_alt:
  "topologicalSort steps =
     (case visitDeps steps (map name steps) initialSortState of
        Inl e \<Rightarrow> Inl e | Inr st \<Rightarrow> Inr (sortedSteps st))"
  by (simp add: topologicalSort_def visitEach_eq initialSortState_def)

lemma topologicalSort_validate_alt:
  "topologicalSort_validate steps =
     (case visitDeps_validate steps (map name steps) initialValidateState of
        (ok, st') \<Rightarrow>
          if ok then \<lparr>order = order_v st', hasCycle = False, cycleStep = None\<rparr>
          else \<lparr>order = [], hasCycle = True, cycleStep = cycleStep_v st'\<rparr>)"
  by (simp add: topologicalSort_validate_def visitEach_validate_eq initialValidateState_def)

lemma sorts_agree_success:
  assumes u: "uniqueNames steps" and r: "topologicalSort steps = Inr srt"
  shows "topologicalSort_validate steps
           = \<lparr>order = map name srt, hasCycle = False, cycleStep = None\<rparr>"
proof -
  from r obtain st where st: "visitDeps steps (map name steps) initialSortState = Inr st"
    and s: "srt = sortedSteps st"
    by (auto simp: topologicalSort_alt split: sum.splits)
  from simulation(2) [OF u, where ds = "map name steps" and st = initialSortState and c = None] st
  have "visitDeps_validate steps (map name steps) initialValidateState
      = (True, abstractState None st)"
    by (simp add: abstract_initial)
  then show ?thesis
    by (simp add: topologicalSort_validate_alt s abstractState_def)
qed

lemma sorts_agree_cycle:
  assumes u: "uniqueNames steps" and r: "topologicalSort steps = Inl (CircularDependency x)"
  shows "topologicalSort_validate steps = \<lparr>order = [], hasCycle = True, cycleStep = Some x\<rparr>"
proof -
  from r have st: "visitDeps steps (map name steps) initialSortState = Inl (CircularDependency x)"
    by (auto simp: topologicalSort_alt split: sum.splits)
  from simulation(2) [OF u, where ds = "map name steps" and st = initialSortState and c = None] st
  obtain st'' where "visitDeps_validate steps (map name steps) initialValidateState = (False, st'')"
    "cycleStep_v st'' = Some x"
    by (auto simp: abstract_initial)
  then show ?thesis
    by (simp add: topologicalSort_validate_alt)
qed

lemma sorts_found:
  assumes c: "dependsClosed steps"
  shows "topologicalSort steps \<noteq> Inl (StepNotFound x)"
proof
  assume "topologicalSort steps = Inl (StepNotFound x)"
  then have "visitDeps steps (map name steps) initialSortState = Inl (StepNotFound x)"
    by (auto simp: topologicalSort_alt split: sum.splits)
  from notFound_unknown(2) [OF this] c show False
    by (auto simp: dependsClosed_def)
qed

lemma find_unique:
  "distinct (map name steps) \<Longrightarrow> s \<in> set steps \<Longrightarrow> find (\<lambda>t. name t = name s) steps = Some s"
  by (induction steps) (auto simp: image_iff)

lemma depGraph_dependsOn: "uniqueNames steps \<Longrightarrow> depGraph steps = dependsOn steps"
proof -
  assume u: "uniqueNames steps"
  show ?thesis
  proof (rule set_eqI, clarify)
    fix a b
    show "(a, b) \<in> depGraph steps \<longleftrightarrow> (a, b) \<in> dependsOn steps"
    proof
      assume "(a, b) \<in> depGraph steps"
      then obtain ds s where "find (\<lambda>s. name s = a) steps = Some s" "depends s = Some ds" "b \<in> set ds"
        by (auto simp: depGraph_def findDepends_def split: option.splits)
      moreover from this(1) have "s \<in> set steps" "name s = a"
        by (auto simp: find_Some_iff)
      ultimately show "(a, b) \<in> dependsOn steps"
        unfolding dependsOn_def dependsOrEmpty_def by (intro CollectI case_prodI bexI [of _ s]) simp_all
    next
      assume "(a, b) \<in> dependsOn steps"
      then obtain s where s: "s \<in> set steps" "name s = a" "b \<in> set (dependsOrEmpty s)"
        by (auto simp: dependsOn_def)
      from find_unique [OF _ s(1)] u s(2) have "find (\<lambda>t. name t = a) steps = Some s"
        by (auto simp: uniqueNames_def)
      moreover from s(3) obtain ds where "depends s = Some ds" "b \<in> set ds"
        by (cases "depends s") (auto simp: dependsOrEmpty_def)
      ultimately show "(a, b) \<in> depGraph steps"
        by (auto simp: depGraph_def findDepends_def)
    qed
  qed
qed

lemma closed_reach:
  assumes c: "dependsClosed steps"
  shows "(dependsOn steps)\<^sup>* `` (name ` set steps) \<subseteq> name ` set steps"
proof -
  have "(a, b) \<in> (dependsOn steps)\<^sup>* \<Longrightarrow> a \<in> name ` set steps \<Longrightarrow> b \<in> name ` set steps" for a b
  proof (induction rule: rtrancl_induct)
    case base
    then show ?case .
  next
    case (step y z)
    then show ?case using c by (auto simp: dependsOn_def dependsClosed_def)
  qed
  then show ?thesis by auto
qed

lemma validate_tiebreak:
  assumes ok: "\<not> hasCycle (topologicalSort_validate steps)"
    and ij: "i < j" "j < length steps"
    and nr: "\<forall>k \<le> i. (name (steps ! k), name (steps ! j)) \<notin> (depGraph steps)\<^sup>*"
  shows "position (name (steps ! i)) (order (topologicalSort_validate steps))
       < position (name (steps ! j)) (order (topologicalSort_validate steps))"
proof -
  let ?G = "depGraph steps"
  let ?ns = "map name steps"
  let ?xs = "take (Suc i) ?ns" and ?ys = "drop (Suc i) ?ns"
  let ?a = "name (steps ! i)" and ?b = "name (steps ! j)"
  obtain ok' stf where r: "visitDeps_validate steps ?ns initialValidateState = (ok', stf)"
    by (cases "visitDeps_validate steps ?ns initialValidateState")
  with ok have ok': "ok'" by (auto simp: topologicalSort_validate_alt split: if_splits)
  with r have res: "order (topologicalSort_validate steps) = order_v stf"
    by (simp add: topologicalSort_validate_alt)
  have "visitDeps_validate steps ?ns initialValidateState =
      (case visitDeps_validate steps ?xs initialValidateState of
         (ok, st1) \<Rightarrow> if ok then visitDeps_validate steps ?ys st1 else (False, st1))"
    using visitDeps_validate_append [of steps ?xs ?ys initialValidateState] by simp
  with r ok' obtain st1 where
    a: "visitDeps_validate steps ?xs initialValidateState = (True, st1)" and
    b: "visitDeps_validate steps ?ys st1 = (True, stf)"
    by (auto split: prod.splits if_splits)
  from validate_success(2) [OF sortInv_initial a]
  have inv1: "sortInv steps st1" and in1: "set ?xs \<subseteq> visited_v st1"
    and reach1: "set (order_v st1) \<subseteq> ?G\<^sup>* `` set ?xs"
    by (auto simp: initialValidateState_def)
  from validate_success(2) [OF inv1 b]
  obtain e2 where invf: "sortInv steps stf" and inf: "set ?ys \<subseteq> visited_v stf"
    and ordf: "order_v stf = order_v st1 @ e2"
    by auto
  have ain: "?a \<in> set ?xs"
  proof -
    have "?xs ! i = ?ns ! i" by simp
    moreover have "i < length ?xs" using ij by simp
    ultimately have "?ns ! i \<in> set ?xs" by (metis nth_mem)
    then show ?thesis using ij by simp
  qed
  have bin: "?b \<in> set ?ys"
  proof -
    have "?ys ! (j - Suc i) = ?ns ! j" using ij by simp
    moreover have "j - Suc i < length ?ys" using ij by simp
    ultimately have "?ns ! j \<in> set ?ys" by (metis nth_mem)
    then show ?thesis using ij by simp
  qed
  have bnot: "?b \<notin> ?G\<^sup>* `` set ?xs"
  proof
    assume "?b \<in> ?G\<^sup>* `` set ?xs"
    then obtain x where x: "x \<in> set ?xs" "(x, ?b) \<in> ?G\<^sup>*" by auto
    from x(1) obtain k where "k < length ?xs" "x = ?xs ! k" by (auto simp: in_set_conv_nth)
    then have "k \<le> i" "x = name (steps ! k)" using ij by auto
    with nr x(2) show False by blast
  qed
  from ain in1 inv1 have a1: "?a \<in> set (order_v st1)" by (auto simp: sortInv_def)
  from bnot reach1 have b1: "?b \<notin> set (order_v st1)" by auto
  have "position ?a (order_v stf) = position ?a (order_v st1)"
    using a1 by (simp add: ordf position_append_in)
  also have "\<dots> < length (order_v st1)" using a1 by (rule position_less_length)
  also have "\<dots> \<le> position ?b (order_v stf)"
    using b1 by (simp add: ordf position_append_notin)
  finally show ?thesis by (simp add: res)
qed

text \<open>
  Claim C3, amended. On a step list with unique names in which every \<open>depends\<close>
  reference names a listed step, the two sorts agree: the execution path's sort returns
  a list exactly when the validation path's sort reports no cycle, the validation order
  is then the list of names of the execution order, and when the execution path's sort
  throws it is for a circular dependency at the step the validation path reports as
  \<open>cycleStep\<close>.
\<close>

theorem sorts_agree:
  assumes u: "uniqueNames steps" and c: "dependsClosed steps"
  shows "((\<exists>srt. topologicalSort steps = Inr srt) \<longleftrightarrow>
            \<not> hasCycle (topologicalSort_validate steps)) \<and>
         (\<forall>srt. topologicalSort steps = Inr srt \<longrightarrow>
            order (topologicalSort_validate steps) = map name srt) \<and>
         (\<forall>e. topologicalSort steps = Inl e \<longrightarrow>
            (\<exists>x. e = CircularDependency x \<and>
                 cycleStep (topologicalSort_validate steps) = Some x))"
proof (cases "topologicalSort steps")
  case (Inr srt)
  from sorts_agree_success [OF u Inr] Inr show ?thesis by simp
next
  case (Inl e)
  show ?thesis
  proof (cases e)
    case (CircularDependency x)
    with Inl sorts_agree_cycle [OF u, of x] show ?thesis by simp
  next
    case (StepNotFound x)
    with Inl sorts_found [OF c, of x] show ?thesis by simp
  qed
qed

theorem sorts_agree_witness:
  "map_sum id (map name) (topologicalSort [plainStep ''A'' [], plainStep ''B'' [''A'']])
     = Inr [''A'', ''B''] \<and>
   topologicalSort_validate [plainStep ''A'' [], plainStep ''B'' [''A'']]
     = \<lparr>order = [''A'', ''B''], hasCycle = False, cycleStep = None\<rparr>"
proof -
  let ?steps = "[plainStep ''A'' [], plainStep ''B'' [''A'']]"
  have u: "uniqueNames ?steps" by (simp add: uniqueNames_def plainStep_def)
  have c: "dependsClosed ?steps" by (simp add: dependsClosed_def dependsOrEmpty_def plainStep_def)
  have r: "topologicalSort ?steps = Inr ?steps"
    by (simp add: topologicalSort_def visit.simps stepMap_def dependsOrEmpty_def plainStep_def)
  from sorts_agree [OF u c] r have "order (topologicalSort_validate ?steps) = map name ?steps"
    and "\<not> hasCycle (topologicalSort_validate ?steps)"
    by blast+
  moreover have "cycleStep (topologicalSort_validate ?steps) = None"
    by (simp add: topologicalSort_validate_def visit_validate.simps findDepends_def markDone_def
        plainStep_def)
  ultimately have "topologicalSort_validate ?steps
      = \<lparr>order = map name ?steps, hasCycle = False, cycleStep = None\<rparr>"
    by (cases "topologicalSort_validate ?steps") simp
  with r show ?thesis by (simp add: plainStep_def)
qed

text \<open>
  Claim C3 as stated fails. With a dependency on an unknown name the execution path's sort
  throws \<open>Step "X" not found\<close> while the validation path's sort reports no cycle and
  returns an order. With a repeated name both sorts succeed and give different orders,
  because the execution path looks a name up in a \<open>Map\<close> (last step of the name) and
  the validation path with \<open>find\<close> (first step of the name).
\<close>

theorem sorts_disagree:
  "topologicalSort [plainStep ''A'' [''X'']] = Inl (StepNotFound ''X'') \<and>
   topologicalSort_validate [plainStep ''A'' [''X'']]
     = \<lparr>order = [''X'', ''A''], hasCycle = False, cycleStep = None\<rparr> \<and>
   map_sum id (map name)
     (topologicalSort [plainStep ''A'' [''B''], plainStep ''A'' [], plainStep ''B'' []])
     = Inr [''A'', ''B''] \<and>
   topologicalSort_validate [plainStep ''A'' [''B''], plainStep ''A'' [], plainStep ''B'' []]
     = \<lparr>order = [''B'', ''A''], hasCycle = False, cycleStep = None\<rparr>"
  by (simp add: topologicalSort_def topologicalSort_validate_def visit.simps visit_validate.simps
      stepMap_def findDepends_def dependsOrEmpty_def markDone_def plainStep_def)

lemma topologicalSort_members:
  "topologicalSort steps = Inr srt \<Longrightarrow> set srt \<subseteq> set steps"
proof -
  assume "topologicalSort steps = Inr srt"
  then obtain st where "visitDeps steps (map name steps) initialSortState = Inr st"
    "srt = sortedSteps st"
    by (auto simp: topologicalSort_alt split: sum.splits)
  with sorted_from_steps(2) [of steps "map name steps" initialSortState st]
  show ?thesis by (simp add: initialSortState_def)
qed

text \<open>
  Claim C2, amended. For a step list with unique names, in which every \<open>depends\<close>
  reference names a listed step, and with no cycle, \<open>topologicalSort\<close> returns a
  permutation of the steps in which every dependency stands before each step that depends
  on it. The sort is a function of the list, so repeated calls give the same order. The
  order is the depth-first post-order over the declaration order: a step declared before
  another keeps its place before it unless the later step is a direct or indirect
  dependency of a step declared no later than the earlier one.
\<close>

theorem topologicalSort_order:
  assumes u: "uniqueNames steps" and c: "dependsClosed steps"
    and a: "acyclic (dependsOn steps)"
  shows "\<exists>srt. topologicalSort steps = Inr srt \<and> mset srt = mset steps \<and>
     (\<forall>(x, y) \<in> dependsOn steps. position y (map name srt) < position x (map name srt)) \<and>
     (\<forall>i j. i < j \<longrightarrow> j < length steps \<longrightarrow>
        (\<forall>k \<le> i. (name (steps ! k), name (steps ! j)) \<notin> (dependsOn steps)\<^sup>*) \<longrightarrow>
        position (name (steps ! i)) (map name srt) < position (name (steps ! j)) (map name srt))"
proof -
  let ?G = "dependsOn steps"
  let ?v = "topologicalSort_validate steps"
  have G: "depGraph steps = ?G" by (rule depGraph_dependsOn [OF u])
  from a have nc: "\<not> hasCycle ?v" by (simp add: topologicalSort_validate_iff G)
  obtain srt where srt: "topologicalSort steps = Inr srt"
  proof (cases "topologicalSort steps")
    case (Inr srt)
    then show ?thesis by (rule that)
  next
    case (Inl e)
    then show ?thesis
    proof (cases e)
      case (CircularDependency x)
      with Inl sorts_agree_cycle [OF u, of x] nc show ?thesis by simp
    next
      case (StepNotFound x)
      with Inl sorts_found [OF c, of x] show ?thesis by simp
    qed
  qed
  from sorts_agree_success [OF u srt] have ord: "order ?v = map name srt" by simp
  from topologicalSort_validate_ok [OF nc]
  have d: "distinct (map name srt)" and all: "name ` set steps \<subseteq> set (map name srt)"
    and db: "depsBefore ?G (map name srt)"
    by (simp_all add: ord G)
  have sub: "set srt \<subseteq> set steps" by (rule topologicalSort_members [OF srt])
  have inj: "inj_on name (set steps)"
    using u by (simp add: uniqueNames_def distinct_map)
  have "set steps \<subseteq> set srt"
  proof
    fix s assume s: "s \<in> set steps"
    with all obtain t where t: "t \<in> set srt" "name t = name s" by auto
    with sub s inj have "t = s" by (auto dest: inj_onD)
    with t show "s \<in> set srt" by simp
  qed
  with sub have "set srt = set steps" by auto
  moreover have "distinct srt" using d by (simp add: distinct_map)
  moreover have "distinct steps" using u by (simp add: uniqueNames_def distinct_map)
  ultimately have perm: "mset srt = mset steps"
    by (simp add: set_eq_iff_mset_eq_distinct)
  have before: "\<forall>(x, y) \<in> ?G. position y (map name srt) < position x (map name srt)"
  proof (clarify)
    fix x y assume e: "(x, y) \<in> ?G"
    then have "x \<in> name ` set steps" by (auto simp: dependsOn_def)
    with all have "x \<in> set (map name srt)" by auto
    from depsBefore_edge [OF db this e]
    show "position y (map name srt) < position x (map name srt)" by simp
  qed
  have tie: "\<forall>i j. i < j \<longrightarrow> j < length steps \<longrightarrow>
        (\<forall>k \<le> i. (name (steps ! k), name (steps ! j)) \<notin> ?G\<^sup>*) \<longrightarrow>
        position (name (steps ! i)) (map name srt) < position (name (steps ! j)) (map name srt)"
    using validate_tiebreak [OF nc] by (simp add: ord G)
  from srt perm before tie show ?thesis by blast
qed

lemma dependsOn_diamond: "dependsOn diamond = {(''A'', ''C'')}"
  by (auto simp: dependsOn_def diamond_def plainStep_def dependsOrEmpty_def)

theorem topologicalSort_order_witness:
  "map_sum id (map name) (topologicalSort diamond) = Inr [''C'', ''A'', ''B'']"
proof -
  have u: "uniqueNames diamond" by (simp add: uniqueNames_def diamond_def plainStep_def)
  have c: "dependsClosed diamond"
    by (simp add: dependsClosed_def dependsOrEmpty_def diamond_def plainStep_def)
  have a: "acyclic (dependsOn diamond)"
    by (simp add: dependsOn_diamond acyclic_insert wf_acyclic)
  from topologicalSort_order [OF u c a] obtain srt where
    srt: "topologicalSort diamond = Inr srt" and
    before: "\<forall>(x, y) \<in> dependsOn diamond. position y (map name srt) < position x (map name srt)" and
    tie: "\<forall>i j. i < j \<longrightarrow> j < length diamond \<longrightarrow>
        (\<forall>k \<le> i. (name (diamond ! k), name (diamond ! j)) \<notin> (dependsOn diamond)\<^sup>*) \<longrightarrow>
        position (name (diamond ! i)) (map name srt) < position (name (diamond ! j)) (map name srt)"
    by blast
  have "topologicalSort diamond = Inr [diamond ! 2, diamond ! 0, diamond ! 1]"
    by (simp add: topologicalSort_def visit.simps stepMap_def dependsOrEmpty_def plainStep_def
        diamond_def)
  then show ?thesis by (simp add: diamond_def plainStep_def)
qed

text \<open>
  Claim C2 as stated fails in its tie-break clause. In the list \<open>A\<close> (depends on
  \<open>C\<close>), \<open>B\<close>, \<open>C\<close> there is no ordering constraint between \<open>B\<close> and \<open>C\<close> and
  \<open>B\<close> is declared first, but the sort returns \<open>C, A, B\<close>.
\<close>

theorem declaration_order_not_kept:
  "uniqueNames diamond \<and> dependsClosed diamond \<and> acyclic (dependsOn diamond) \<and>
   map name diamond = [''A'', ''B'', ''C''] \<and>
   map_sum id (map name) (topologicalSort diamond) = Inr [''C'', ''A'', ''B''] \<and>
   (''B'', ''C'') \<notin> (dependsOn diamond)\<^sup>* \<and> (''C'', ''B'') \<notin> (dependsOn diamond)\<^sup>* \<and>
   position ''B'' (map name diamond) < position ''C'' (map name diamond) \<and>
   position ''C'' [''C'', ''A'', ''B''] < position ''B'' [''C'', ''A'', ''B'']"
proof (intro conjI)
  show "uniqueNames diamond" by (simp add: uniqueNames_def diamond_def plainStep_def)
  show "dependsClosed diamond"
    by (simp add: dependsClosed_def dependsOrEmpty_def diamond_def plainStep_def)
  show "acyclic (dependsOn diamond)" by (simp add: dependsOn_diamond acyclic_insert wf_acyclic)
  show "map name diamond = [''A'', ''B'', ''C'']" by (simp add: diamond_def plainStep_def)
  show "map_sum id (map name) (topologicalSort diamond) = Inr [''C'', ''A'', ''B'']"
    by (simp add: topologicalSort_def visit.simps stepMap_def dependsOrEmpty_def plainStep_def
        diamond_def)
  show "(''B'', ''C'') \<notin> (dependsOn diamond)\<^sup>*"
    by (simp add: dependsOn_diamond rtrancl_insert)
  show "(''C'', ''B'') \<notin> (dependsOn diamond)\<^sup>*"
    by (simp add: dependsOn_diamond rtrancl_insert)
  show "position ''B'' (map name diamond) < position ''C'' (map name diamond)"
    by (simp add: position_def diamond_def plainStep_def)
  show "position ''C'' [''C'', ''A'', ''B''] < position ''B'' [''C'', ''A'', ''B'']"
    by (simp add: position_def)
qed







lemma getLevel_shadowedSelfLoop: "getLevel fuel shadowedSelfLoop ''A'' [] = None"
proof (induction fuel)
  case 0
  show ?case by (simp add: stepMap_def shadowedSelfLoop_def plainStep_def)
next
  case (Suc fuel)
  then show ?case by (simp add: stepMap_def shadowedSelfLoop_def plainStep_def)
qed

lemma relayWorkflowValidate_shadowedSelfLoop:
  "relayWorkflowValidate fuel shadowedSelfLoop = None"
proof -
  have "\<not> hasCycle (topologicalSort_validate shadowedSelfLoop)"
    by (simp add: topologicalSort_validate_def visit_validate.simps findDepends_def markDone_def
        shadowedSelfLoop_def plainStep_def)
  moreover have "getLevels fuel shadowedSelfLoop (map name shadowedSelfLoop) [] = None"
    using getLevel_shadowedSelfLoop [of fuel]
    by (simp add: shadowedSelfLoop_def plainStep_def)
  ultimately show ?thesis
    by (simp add: relayWorkflowValidate_def calculateParallelGroups_def Let_def)
qed

section \<open>Properties of the interpolation\<close>







lemma null_leaf_rendered:
  "interpolate ''{{input.nick}}'' bobContext = ''null''"
  by (simp add: interpolate.simps matchPlaceholder_def replacePlaceholder_def trim_def isSpace_def
      contextValue_def render_def bobContext_def)

section \<open>Properties of the workflow execution\<close>






















end
